theory Spec2Isabelle
  imports Complex_Main "HOL-Library.Char_ord" "HOL-Library.List_Lexorder" "HOL-Library.Log_Nat"
begin

section \<open>JavaScript strings and the string primitives used by overlay.ts\<close>

text \<open>
  A JavaScript string is a sequence of code units, modelled as a list. \<open>normalize\<close> calls
  three built-ins of the run time: \<open>replace\<close> with a regular expression that names the
  double quote, \<open>trim\<close> and \<open>toUpperCase\<close>. The last two are defined by the Unicode tables
  of the run time (\<open>trim\<close> removes the code units of \<open>WhiteSpace\<close> and \<open>LineTerminator\<close>,
  the no-break space among them; \<open>toUpperCase\<close> maps the sharp s to \<open>SS\<close>), so the normalizer
  is first written over an arbitrary run time: a type \<open>'c\<close> of code units, the double
  quote \<open>dq\<close> among them, the white space test \<open>white\<close> of \<open>trim\<close>, and the function \<open>upper\<close>
  that \<open>toUpperCase\<close> computes on whole strings.
\<close>

text \<open>Removing a run of code units at both ends, as \<open>trim\<close> and the regular expression
  \<^verbatim>\<open>/^"+|"+$/g\<close> do: the run at the start, then the run that reaches the end.\<close>

definition stripBoth :: "('c \<Rightarrow> bool) \<Rightarrow> 'c list \<Rightarrow> 'c list" where
  "stripBoth P s = rev (dropWhile P (rev (dropWhile P s)))"

text \<open>\<^verbatim>\<open>s.replace(/^"+|"+$/g, '')\<close>\<close>

definition stripQuotes :: "'c \<Rightarrow> 'c list \<Rightarrow> 'c list" where
  "stripQuotes dq s = stripBoth (\<lambda>c. c = dq) s"

text \<open>\<^verbatim>\<open>s.trim()\<close>\<close>

definition trim :: "('c \<Rightarrow> bool) \<Rightarrow> 'c list \<Rightarrow> 'c list" where
  "trim white s = stripBoth white s"

text \<open>\<^verbatim>\<open>const normalize = (s) => s.replace(/^"+|"+$/g, '').trim().toUpperCase()\<close>
  over a run time.\<close>

definition normalize_rt :: "('c list \<Rightarrow> 'c list) \<Rightarrow> ('c \<Rightarrow> bool) \<Rightarrow> 'c \<Rightarrow> 'c list \<Rightarrow> 'c list" where
  "normalize_rt upper white dq s = upper (trim white (stripQuotes dq s))"

text \<open>
  The run time restricted to ASCII text, on \<^typ>\<open>string\<close> (a \<^typ>\<open>char\<close> read as one code
  unit through \<^term>\<open>of_char\<close>): there \<open>toUpperCase\<close> maps the code units 97..122 (\<open>a\<close>..\<open>z\<close>)
  to 65..90 and leaves every other one alone, and the white space of \<open>trim\<close> is TAB, LF,
  VT, FF, CR and SPACE. On ASCII text these are the built-ins; on other text they are
  not (code units from 128 on are left alone), which is why the properties of the
  normalizer itself are stated of \<open>normalize_rt\<close>. The identity index, the overlay and
  the edge keys are computed with this instance, named \<open>normalize_str\<close> (\<open>normalize\<close> is
  a constant of the library).
\<close>

definition dquote :: char where
  "dquote = CHR 0x22"

definition asciiWhiteSpace :: "char \<Rightarrow> bool" where
  "asciiWhiteSpace c \<longleftrightarrow> (let n = (of_char c :: nat) in (9 \<le> n \<and> n \<le> 13) \<or> n = 32)"

definition asciiUpperChar :: "char \<Rightarrow> char" where
  "asciiUpperChar c = (let n = (of_char c :: nat) in if 97 \<le> n \<and> n \<le> 122 then char_of (n - 32) else c)"

definition asciiUpperCase :: "string \<Rightarrow> string" where
  "asciiUpperCase s = map asciiUpperChar s"

definition normalize_str :: "string \<Rightarrow> string" where
  "normalize_str s = normalize_rt asciiUpperCase asciiWhiteSpace dquote s"


section \<open>Data model (types.ts)\<close>

text \<open>
  Only the fields read by the modelled functions are kept. The field \<open>id\<close> of a node is
  called \<open>node_id\<close>. A \<open>label\<close> or \<open>description\<close> that is \<open>undefined\<close> or \<open>null\<close> at run time
  is \<open>None\<close>; the same holds for the two arrays of \<open>node_hits\<close> and for the node list of
  an index.
\<close>

record NodeRec =
  node_id :: string
  label :: "string option"
  description :: "string option"
  level :: int

record NodeData =
  entity_name :: string

record ReasoningPath =
  src_tgt :: "string \<times> string"

record NodeHits =
  use_reasoning_path :: "ReasoningPath list option"
  node_datas :: "NodeData list option"

record RetrieveResponse =
  node_hits :: NodeHits

record ChatMessage =
  msg_id :: string
  retrieval :: "RetrieveResponse option"

record IndexJson =
  nodes :: "NodeRec list option"

datatype error = TypeError


section \<open>Sets and maps of the run time\<close>

text \<open>A \<open>Set<string>\<close> keeps its elements in insertion order and ignores a second \<open>add\<close>
  of the same element: a duplicate-free list, new elements at the end.\<close>

definition setAdd :: "string list \<Rightarrow> string \<Rightarrow> string list" where
  "setAdd xs x = (if x \<in> set xs then xs else xs @ [x])"

text \<open>\<^verbatim>\<open>for (const id of ids) acc.add(id)\<close>\<close>

fun addAll :: "string list \<Rightarrow> string list \<Rightarrow> string list" where
  "addAll acc [] = acc"
| "addAll acc (x # xs) = addAll (setAdd acc x) xs"

text \<open>\<^verbatim>\<open>nameMap.get(k) || []\<close>\<close>

definition getOrEmpty :: "(string \<rightharpoonup> string list) \<Rightarrow> string \<Rightarrow> string list" where
  "getOrEmpty m k = (case m k of None \<Rightarrow> [] | Some arr \<Rightarrow> arr)"


section \<open>overlay.ts: buildOverlay\<close>

record Overlay =
  hitNodeIds :: "string list"
  pathNodeIds :: "string list"
  pathEdgeKeys :: "string list"

text \<open>The inner loop over \<^verbatim>\<open>[n.id, n.label, n.description]\<close>: a falsy key (absent or the
  empty string) is skipped, any other key is normalized and the node's id appended to
  the entry of the normalized key.\<close>

fun indexKeys :: "(string \<rightharpoonup> string list) \<Rightarrow> string \<Rightarrow> string option list \<Rightarrow> (string \<rightharpoonup> string list)" where
  "indexKeys m i [] = m"
| "indexKeys m i (None # keys) = indexKeys m i keys"
| "indexKeys m i (Some key # keys) =
     (if key = [] then indexKeys m i keys
      else let k = normalize_str key;
               arr = getOrEmpty m k
           in indexKeys (m(k \<mapsto> arr @ [i])) i keys)"

text \<open>The outer loop \<^verbatim>\<open>for (const n of nodes)\<close>.\<close>

fun buildNameMap :: "(string \<rightharpoonup> string list) \<Rightarrow> NodeRec list \<Rightarrow> (string \<rightharpoonup> string list)" where
  "buildNameMap m [] = m"
| "buildNameMap m (n # ns) =
     buildNameMap (indexKeys m (node_id n) [Some (node_id n), label n, description n]) ns"

text \<open>\<^verbatim>\<open>for (const nd of res.node_hits.node_datas) ...\<close>\<close>

fun hitLoop :: "(string \<rightharpoonup> string list) \<Rightarrow> string list \<Rightarrow> NodeData list \<Rightarrow> string list" where
  "hitLoop m hit [] = hit"
| "hitLoop m hit (nd # nds) =
     (let k = normalize_str (entity_name nd)
      in hitLoop m (addAll hit (getOrEmpty m k)) nds)"

text \<open>The template literal \<^verbatim>\<open>`${a}||${b}`\<close>.\<close>

definition keyOf :: "string \<Rightarrow> string \<Rightarrow> string" where
  "keyOf a b = a @ ''||'' @ b"

text \<open>\<^verbatim>\<open>for (const p of reasoning) ...\<close>, on the pair (pathNodeIds, pathEdgeKeys).\<close>

fun pathLoop :: "(string \<rightharpoonup> string list) \<Rightarrow> string list \<times> string list \<Rightarrow> ReasoningPath list
     \<Rightarrow> string list \<times> string list" where
  "pathLoop m acc [] = acc"
| "pathLoop m (pn, pe) (p # ps) =
     (let sNorm = normalize_str (fst (src_tgt p));
          tNorm = normalize_str (snd (src_tgt p));
          pn1 = addAll pn (getOrEmpty m sNorm);
          pn2 = addAll pn1 (getOrEmpty m tNorm);
          pe1 = setAdd pe (keyOf sNorm tNorm);
          pe2 = setAdd pe1 (keyOf tNorm sNorm)
      in pathLoop m (pn2, pe2) ps)"

text \<open>\<open>buildOverlay\<close>. Iterating \<open>res.node_hits.node_datas\<close> when it is absent throws a
  TypeError (the value is not iterable); \<open>use_reasoning_path\<close> is read through
  \<^verbatim>\<open>?? []\<close>.\<close>

definition buildOverlay :: "RetrieveResponse \<Rightarrow> NodeRec list \<Rightarrow> error + Overlay" where
  "buildOverlay res ns =
     (let nameMap = buildNameMap Map.empty ns
      in case node_datas (node_hits res) of
           None \<Rightarrow> Inl TypeError
         | Some nds \<Rightarrow>
             (let hit = hitLoop nameMap [] nds;
                  reasoning = (case use_reasoning_path (node_hits res) of None \<Rightarrow> [] | Some r \<Rightarrow> r);
                  pp = pathLoop nameMap ([], []) reasoning
              in Inr \<lparr>hitNodeIds = hit, pathNodeIds = fst pp, pathEdgeKeys = snd pp\<rparr>))"


section \<open>overlay.ts: edgeKey\<close>

text \<open>The argument of \<open>edgeKey\<close> has type \<open>any\<close>: a small universe of JavaScript values.
  Reading a property of \<open>undefined\<close> or \<open>null\<close> throws; \<open>x?.id\<close> yields \<open>undefined\<close>
  there. A primitive has no property \<open>id\<close>, \<open>source\<close> or \<open>target\<close>.\<close>

datatype jsval =
    JUndefined
  | JNull
  | JString string
  | JNumber int
  | JObject "(string \<times> jsval) list"

definition getProp :: "jsval \<Rightarrow> string \<Rightarrow> jsval" where
  "getProp x p =
     (case x of
        JObject props \<Rightarrow> (case map_of props p of None \<Rightarrow> JUndefined | Some v \<Rightarrow> v)
      | _ \<Rightarrow> JUndefined)"

text \<open>\<open>normalize\<close> applied to a value of type \<open>any\<close>: only a string has \<open>replace\<close>.\<close>

definition normalizeAny :: "jsval \<Rightarrow> error + string" where
  "normalizeAny v = (case v of JString s \<Rightarrow> Inr (normalize_str s) | _ \<Rightarrow> Inl TypeError)"

text \<open>\<^verbatim>\<open>const g = (x) => (typeof x === 'string' ? normalize(x) : normalize(x?.id ?? ''))\<close>\<close>

definition edgeKey_g :: "jsval \<Rightarrow> error + string" where
  "edgeKey_g x =
     (case x of
        JString s \<Rightarrow> Inr (normalize_str s)
      | _ \<Rightarrow>
          (let i = getProp x ''id''
           in normalizeAny (if i = JUndefined then JString [] else if i = JNull then JString [] else i)))"

text \<open>\<^verbatim>\<open>return `${g(e.source)}||${g(e.target)}`\<close>\<close>

definition edgeKey :: "jsval \<Rightarrow> error + string" where
  "edgeKey e =
     (if e = JUndefined then Inl TypeError
      else if e = JNull then Inl TypeError
      else case edgeKey_g (getProp e ''source'') of
             Inl err \<Rightarrow> Inl err
           | Inr a \<Rightarrow>
               (case edgeKey_g (getProp e ''target'') of
                  Inl err \<Rightarrow> Inl err
                | Inr b \<Rightarrow> Inr (keyOf a b)))"

text \<open>The endpoint shapes the renderer hands to \<open>edgeKey\<close>, with the text each stands
  for: the id string of an \<open>EdgeRec\<close>, or, once the simulation has linked the edge, the
  node object, whose \<open>id\<close> is read (an absent id counts as the empty string). Any other
  value is not an endpoint of the renderer (\<open>None\<close>).\<close>

definition endpointId :: "jsval \<Rightarrow> string option" where
  "endpointId x =
     (case x of
        JString s \<Rightarrow> Some s
      | JObject props \<Rightarrow>
          (case map_of props ''id'' of
             None \<Rightarrow> Some []
           | Some JUndefined \<Rightarrow> Some []
           | Some JNull \<Rightarrow> Some []
           | Some (JString i) \<Rightarrow> Some i
           | Some _ \<Rightarrow> None)
      | _ \<Rightarrow> None)"

text \<open>GraphCanvas.tsx:
  \<^verbatim>\<open>const isPathEdge = (l) => overlay?.pathEdgeKeys.has(edgeKey(l)) ?? false\<close>\<close>

definition isPathEdge :: "Overlay option \<Rightarrow> jsval \<Rightarrow> error + bool" where
  "isPathEdge overlay l =
     (case overlay of
        None \<Rightarrow> Inr False
      | Some ov \<Rightarrow> (case edgeKey l of Inl err \<Rightarrow> Inl err | Inr k \<Rightarrow> Inr (k \<in> set (pathEdgeKeys ov))))"


section \<open>App.tsx: the merged overlay of the chat history\<close>

definition emptyOverlay :: Overlay where
  "emptyOverlay = \<lparr>hitNodeIds = [], pathNodeIds = [], pathEdgeKeys = []\<rparr>"

text \<open>The loop \<^verbatim>\<open>for (const msg of chatHistory)\<close> on the three accumulating sets. A
  message without retrieval payload is skipped, and so is every message when the index
  has no node list. An exception of \<open>buildOverlay\<close> leaves the loop.\<close>

fun mergeLoop :: "Overlay \<Rightarrow> NodeRec list option \<Rightarrow> ChatMessage list \<Rightarrow> error + Overlay" where
  "mergeLoop acc ns [] = Inr acc"
| "mergeLoop acc ns (msg # msgs) =
     (case retrieval msg of
        None \<Rightarrow> mergeLoop acc ns msgs
      | Some r \<Rightarrow>
          (case ns of
             None \<Rightarrow> mergeLoop acc ns msgs
           | Some nds \<Rightarrow>
               (case buildOverlay r nds of
                  Inl err \<Rightarrow> Inl err
                | Inr ov \<Rightarrow>
                    mergeLoop
                      \<lparr>hitNodeIds = addAll (hitNodeIds acc) (hitNodeIds ov),
                       pathNodeIds = addAll (pathNodeIds acc) (pathNodeIds ov),
                       pathEdgeKeys = addAll (pathEdgeKeys acc) (pathEdgeKeys ov)\<rparr>
                      ns msgs)))"

text \<open>The effect on \<open>[chatHistory, indexData]\<close>: nothing is stored while the index is not
  loaded (\<open>None\<close>); otherwise the loop's result is what \<open>setMergedOverlay\<close> receives.\<close>

definition mergedOverlayEffect :: "ChatMessage list \<Rightarrow> IndexJson option \<Rightarrow> (error + Overlay) option" where
  "mergedOverlayEffect chatHistory indexData =
     (case indexData of
        None \<Rightarrow> None
      | Some d \<Rightarrow> Some (mergeLoop emptyOverlay (nodes d) chatHistory))"


section \<open>GraphCanvas.tsx: the focus signature and the two camera effects\<close>

text \<open>\<^verbatim>\<open>xs.join(sep)\<close>\<close>

fun join :: "string \<Rightarrow> string list \<Rightarrow> string" where
  "join sep [] = []"
| "join sep [x] = x"
| "join sep (x # y # ys) = x @ sep @ join sep (y # ys)"

text \<open>A callback handed to \<open>requestAnimationFrame\<close>, and what a callback does to the
  camera.\<close>

datatype FrameTask = FocusFit "string list" | ResetFit

datatype CameraOp = ZoomToFit "string list option" | ReheatSimulation

text \<open>The state of the component that the two effects read and write: the ref
  \<open>zoomSigRef\<close> (initially the empty string), the callbacks waiting for the next frame, and
  the camera operations performed so far.\<close>

record CanvasState =
  zoomSigRef :: string
  frameQueue :: "FrameTask list"
  cameraLog :: "CameraOp list"

definition initialCanvas :: CanvasState where
  "initialCanvas = \<lparr>zoomSigRef = [], frameQueue = [], cameraLog = []\<rparr>"

text \<open>\<^verbatim>\<open>new Set([...(overlay?.hitNodeIds ?? new Set()), ...(overlay?.pathNodeIds ?? new Set())])\<close>\<close>

definition focusSetOf :: "Overlay option \<Rightarrow> string list" where
  "focusSetOf overlay =
     (case overlay of
        None \<Rightarrow> []
      | Some ov \<Rightarrow> addAll [] (hitNodeIds ov @ pathNodeIds ov))"

text \<open>\<^verbatim>\<open>Array.from(focusSet).sort().join('|')\<close>\<close>

definition signatureOf :: "string list \<Rightarrow> string" where
  "signatureOf focusSet = join ''|'' (sort focusSet)"

text \<open>The effect on \<open>[overlay]\<close>. \<open>fgRef\<close> tells whether the graph component is mounted.\<close>

definition overlayZoomEffect :: "bool \<Rightarrow> Overlay option \<Rightarrow> CanvasState \<Rightarrow> CanvasState" where
  "overlayZoomEffect fgRef overlay st =
     (if fgRef then
        (let focusSet = focusSetOf overlay
         in if length focusSet = 0 then st
            else (let signature = signatureOf focusSet
                  in if signature = zoomSigRef st then st
                     else st\<lparr>zoomSigRef := signature,
                             frameQueue := frameQueue st @ [FocusFit focusSet]\<rparr>))
      else st)"

text \<open>The effect on \<open>[resetZoomTick]\<close>; the tick is \<open>None\<close> when the property is
  \<open>undefined\<close>.\<close>

definition resetZoomEffect :: "bool \<Rightarrow> nat option \<Rightarrow> CanvasState \<Rightarrow> CanvasState" where
  "resetZoomEffect fgRef resetZoomTick st =
     (if fgRef then
        (case resetZoomTick of
           None \<Rightarrow> st
         | Some t \<Rightarrow> st\<lparr>frameQueue := frameQueue st @ [ResetFit]\<rparr>)
      else st)"

text \<open>Running one callback: the fit, the reheat and, for the reset callback, the
  assignment \<^verbatim>\<open>zoomSigRef.current = 'reset'\<close>.\<close>

fun runTask :: "FrameTask \<Rightarrow> CanvasState \<Rightarrow> CanvasState" where
  "runTask (FocusFit focusSet) st =
     st\<lparr>cameraLog := cameraLog st @ [ZoomToFit (Some focusSet), ReheatSimulation]\<rparr>"
| "runTask ResetFit st =
     st\<lparr>cameraLog := cameraLog st @ [ZoomToFit None, ReheatSimulation],
        zoomSigRef := ''reset''\<rparr>"

text \<open>The next animation frame runs the waiting callbacks in the order they were
  requested.\<close>

definition animationFrame :: "CanvasState \<Rightarrow> CanvasState" where
  "animationFrame st = fold runTask (frameQueue st) (st\<lparr>frameQueue := []\<rparr>)"


section \<open>GraphCanvas.tsx: the level bands\<close>

text \<open>
  The numbers of JavaScript are IEEE 754 doubles, and every arithmetic operation
  returns the double nearest to the exact result, a tie going to the even
  significand. A finite double is a rational number, so the operations are modelled
  on \<^typ>\<open>rat\<close> with that rounding written out: \<open>binade x\<close> is the exponent \<open>e\<close> with
  \<open>2^e \<le> |x| < 2^(e+1)\<close>, and \<open>roundDouble x\<close> is the nearest multiple of \<open>2^(e-52)\<close>,
  the spacing of the doubles of that magnitude. The exponent is not bounded in the
  model: it is the arithmetic of the program wherever no operation overflows or
  reaches the subnormal range, which is the case for the inputs of the claims below
  (heights and levels that are safe integers, of magnitude below \<open>2^53\<close>).
\<close>

definition binade :: "rat \<Rightarrow> int" where
  "binade x = (let p = fst (quotient_of \<bar>x\<bar>); q = snd (quotient_of \<bar>x\<bar>); k = bitlen p - bitlen q
               in if 2 powi k \<le> \<bar>x\<bar> then k else k - 1)"

definition roundHalfEven :: "rat \<Rightarrow> int" where
  "roundHalfEven r =
     (let f = \<lfloor>r\<rfloor>; d = r - of_int f
      in if d < 1 / 2 then f else if 1 / 2 < d then f + 1 else if even f then f else f + 1)"

definition roundDouble :: "rat \<Rightarrow> rat" where
  "roundDouble x =
     (if x = 0 then 0
      else let ulp = 2 powi (binade x - 52) in of_int (roundHalfEven (x / ulp)) * ulp)"













section \<open>Auxiliary facts: code units and strings\<close>

lemma stripBoth_id:
  assumes "s = [] \<or> (\<not> P (hd s) \<and> \<not> P (last s))"
  shows "stripBoth P s = s"
proof (cases "s = []")
  case True
  then show ?thesis by (simp add: stripBoth_def)
next
  case False
  with assms have h: "\<not> P (hd s)" and l: "\<not> P (last s)" by auto
  from False h have "dropWhile P s = s" by (simp add: dropWhile_eq_self_iff)
  moreover from False l have "dropWhile P (rev s) = rev s"
    by (simp add: dropWhile_eq_self_iff hd_rev)
  ultimately show ?thesis by (simp add: stripBoth_def)
qed

lemma last_dropWhile_nonempty:
  "dropWhile P xs \<noteq> [] \<Longrightarrow> last (dropWhile P xs) = last xs"
  by (induction xs) (auto split: if_splits)

lemma stripBoth_ends:
  "stripBoth P s = [] \<or> (\<not> P (hd (stripBoth P s)) \<and> \<not> P (last (stripBoth P s)))"
proof (cases "stripBoth P s = []")
  case True
  then show ?thesis by simp
next
  case False
  define t where "t = dropWhile P s"
  define u where "u = dropWhile P (rev t)"
  have res: "stripBoth P s = rev u" by (simp add: stripBoth_def t_def u_def)
  from False res have u: "u \<noteq> []" by simp
  then have t: "t \<noteq> []" by (auto simp: u_def)
  from u have "\<not> P (hd u)" unfolding u_def by (rule hd_dropWhile)
  moreover from u have "last u = last (rev t)" unfolding u_def by (rule last_dropWhile_nonempty)
  moreover from t have "\<not> P (hd t)" unfolding t_def by (rule hd_dropWhile)
  ultimately show ?thesis using u t by (simp add: res hd_rev last_rev)
qed

lemma stripBoth_map:
  assumes "\<And>c. P (f c) = P c"
  shows "stripBoth P (map f s) = map f (stripBoth P s)"
proof -
  have pf: "P \<circ> f = P" using assms by (simp add: fun_eq_iff)
  have dw: "dropWhile P (map f xs) = map f (dropWhile P xs)" for xs
    by (simp add: dropWhile_map pf)
  have "stripBoth P (map f s) = rev (dropWhile P (map f (rev (dropWhile P s))))"
    by (simp only: stripBoth_def dw rev_map)
  also have "\<dots> = map f (rev (dropWhile P (rev (dropWhile P s))))"
    by (simp only: dw rev_map)
  finally show ?thesis by (simp only: stripBoth_def)
qed

lemma dropWhile_same_length:
  "length (dropWhile P xs) = length xs \<Longrightarrow> dropWhile P xs = xs"
proof (cases xs)
  case Nil
  then show ?thesis by simp
next
  case (Cons x xs')
  assume len: "length (dropWhile P xs) = length xs"
  show ?thesis
  proof (cases "P x")
    case True
    have "length (dropWhile P xs') \<le> length xs'" by (rule length_dropWhile_le)
    with True Cons len show ?thesis by simp
  next
    case False
    with Cons show ?thesis by simp
  qed
qed

lemma length_stripBoth_le: "length (stripBoth P s) \<le> length s"
proof -
  have "length (dropWhile P (rev (dropWhile P s))) \<le> length (rev (dropWhile P s))"
    by (rule length_dropWhile_le)
  also have "\<dots> \<le> length s" by (simp add: length_dropWhile_le)
  finally show ?thesis by (simp add: stripBoth_def)
qed

lemma stripBoth_same_length:
  assumes "length (stripBoth P s) = length s"
  shows "s = [] \<or> (\<not> P (hd s) \<and> \<not> P (last s))"
proof (cases "s = []")
  case True
  then show ?thesis by simp
next
  case False
  have le1: "length (dropWhile P (rev (dropWhile P s))) \<le> length (dropWhile P s)"
    using length_dropWhile_le [of P "rev (dropWhile P s)"] by simp
  have le2: "length (dropWhile P s) \<le> length s" by (rule length_dropWhile_le)
  from assms have "length (dropWhile P (rev (dropWhile P s))) = length s"
    by (simp add: stripBoth_def)
  with le1 le2 have l1: "length (dropWhile P s) = length s" by simp
  then have d1: "dropWhile P s = s" by (rule dropWhile_same_length)
  from assms d1 have "length (dropWhile P (rev s)) = length (rev s)"
    by (simp add: stripBoth_def)
  then have d2: "dropWhile P (rev s) = rev s" by (rule dropWhile_same_length)
  from d1 False have "\<not> P (hd s)" by (simp add: dropWhile_eq_self_iff)
  moreover from d2 False have "\<not> P (last s)" by (simp add: dropWhile_eq_self_iff hd_rev)
  ultimately show ?thesis by simp
qed

lemma dropWhile_all: "\<forall>c\<in>set w. P c \<Longrightarrow> dropWhile P (w @ ys) = dropWhile P ys"
  by (induction w) simp_all

lemma dropWhile_replicate_append:
  "P q \<Longrightarrow> dropWhile P (replicate n q @ ys) = dropWhile P ys"
  by (rule dropWhile_all) simp

lemma stripBoth_wrapped:
  assumes q: "P q"
  shows "stripBoth P (replicate m q @ s @ replicate n q) = stripBoth P s"
proof -
  have front: "dropWhile P (replicate m q @ s @ replicate n q) = dropWhile P (s @ replicate n q)"
    using q by (rule dropWhile_replicate_append)
  show ?thesis
  proof (cases "\<forall>c\<in>set s. P c")
    case True
    then have e1: "dropWhile P (s @ replicate n q) = []" and e2: "dropWhile P s = []"
      using q by auto
    show ?thesis by (simp only: stripBoth_def front e1 e2)
  next
    case False
    then obtain c where "c \<in> set s" "\<not> P c" by blast
    then have "dropWhile P (s @ replicate n q) = dropWhile P s @ replicate n q"
      by (rule dropWhile_append1)
    then have "dropWhile P (rev (dropWhile P (s @ replicate n q))) = dropWhile P (rev (dropWhile P s))"
      using q by (simp add: dropWhile_replicate_append)
    then show ?thesis by (simp only: stripBoth_def front)
  qed
qed

lemma stripBoth_padded:
  assumes w: "\<forall>c\<in>set w1 \<union> set w2. P c"
    and core: "core = [] \<or> (\<not> P (hd core) \<and> \<not> P (last core))"
  shows "stripBoth P (w1 @ core @ w2) = core"
proof (cases "core = []")
  case True
  with w have "\<forall>c\<in>set (w1 @ core @ w2). P c" by auto
  then have "dropWhile P (w1 @ core @ w2) = []" by (simp only: dropWhile_eq_Nil_conv)
  with True show ?thesis by (simp only: stripBoth_def rev.simps dropWhile.simps)
next
  case False
  with core have h: "\<not> P (hd core)" and l: "\<not> P (last core)" by auto
  from w have w1: "\<forall>c\<in>set w1. P c" and w2: "\<forall>c\<in>set (rev w2). P c" by auto
  have "dropWhile P (w1 @ core @ w2) = dropWhile P (core @ w2)"
    using w1 by (rule dropWhile_all)
  also have "\<dots> = core @ w2"
    using False h by (simp add: dropWhile_eq_self_iff)
  finally have d1: "dropWhile P (w1 @ core @ w2) = core @ w2" .
  have "dropWhile P (rev (core @ w2)) = dropWhile P (rev w2 @ rev core)" by simp
  also have "\<dots> = dropWhile P (rev core)" using w2 by (rule dropWhile_all)
  also have "\<dots> = rev core" using False l by (simp add: dropWhile_eq_self_iff hd_rev)
  finally have d2: "dropWhile P (rev (core @ w2)) = rev core" .
  show ?thesis by (simp only: stripBoth_def d1 d2 rev_rev_ident)
qed

lemma normalize_rt_unfold:
  "normalize_rt upper white dq s = upper (stripBoth white (stripBoth (\<lambda>c. c = dq) s))"
  by (simp only: normalize_rt_def trim_def stripQuotes_def)

lemma normalize_rt_alt:
  assumes cq: "\<And>s. upper (stripQuotes dq s) = stripQuotes dq (upper s)"
    and cw: "\<And>s. upper (trim white s) = trim white (upper s)"
  shows "normalize_rt upper white dq s = stripBoth white (stripBoth (\<lambda>c. c = dq) (upper s))"
  by (simp only: normalize_rt_def cq cw) (simp only: trim_def stripQuotes_def)

lemma normalize_rt_fixed_iff:
  assumes idem: "\<And>s. upper (upper s) = upper s"
    and cq: "\<And>s. upper (stripQuotes dq s) = stripQuotes dq (upper s)"
    and cw: "\<And>s. upper (trim white s) = trim white (upper s)"
  shows "normalize_rt upper white dq (normalize_rt upper white dq x) = normalize_rt upper white dq x \<longleftrightarrow>
     normalize_rt upper white dq x = []
     \<or> (hd (normalize_rt upper white dq x) \<noteq> dq \<and> last (normalize_rt upper white dq x) \<noteq> dq)"
proof -
  define y where "y = normalize_rt upper white dq x"
  note alt = normalize_rt_alt [of upper dq white, OF cq cw]
  have up: "upper y = y" by (simp only: y_def normalize_rt_def idem)
  have ny: "normalize_rt upper white dq y = stripBoth white (stripBoth (\<lambda>c. c = dq) y)"
    by (simp only: alt up)
  have "y = stripBoth white (stripBoth (\<lambda>c. c = dq) (upper x))" by (simp only: y_def alt)
  then have "y = [] \<or> (\<not> white (hd y) \<and> \<not> white (last y))"
    using stripBoth_ends [of white "stripBoth (\<lambda>c. c = dq) (upper x)"] by simp
  then have tr: "stripBoth white y = y" by (rule stripBoth_id)
  have "normalize_rt upper white dq y = y \<longleftrightarrow> y = [] \<or> (hd y \<noteq> dq \<and> last y \<noteq> dq)"
  proof
    assume "y = [] \<or> (hd y \<noteq> dq \<and> last y \<noteq> dq)"
    then have "stripBoth (\<lambda>c. c = dq) y = y" by (intro stripBoth_id) simp
    then show "normalize_rt upper white dq y = y" by (simp only: ny tr)
  next
    assume fx: "normalize_rt upper white dq y = y"
    have "length y = length (stripBoth white (stripBoth (\<lambda>c. c = dq) y))"
      using fx by (simp only: ny)
    also have "\<dots> \<le> length (stripBoth (\<lambda>c. c = dq) y)" by (rule length_stripBoth_le)
    finally have "length y \<le> length (stripBoth (\<lambda>c. c = dq) y)" .
    moreover have "length (stripBoth (\<lambda>c. c = dq) y) \<le> length y" by (rule length_stripBoth_le)
    ultimately have "length (stripBoth (\<lambda>c. c = dq) y) = length y" by simp
    then have "y = [] \<or> (\<not> hd y = dq \<and> \<not> last y = dq)" by (rule stripBoth_same_length)
    then show "y = [] \<or> (hd y \<noteq> dq \<and> last y \<noteq> dq)" by simp
  qed
  then show ?thesis by (simp only: y_def)
qed

lemma normalize_rt_case_insensitive:
  assumes cq: "\<And>s. upper (stripQuotes dq s) = stripQuotes dq (upper s)"
    and cw: "\<And>s. upper (trim white s) = trim white (upper s)"
    and eq: "upper a = upper b"
  shows "normalize_rt upper white dq a = normalize_rt upper white dq b"
  by (simp only: normalize_rt_alt [of upper dq white, OF cq cw] eq)

lemma normalize_rt_wrapped:
  "normalize_rt upper white dq (replicate m dq @ s @ replicate n dq) = normalize_rt upper white dq s"
proof -
  have "stripBoth (\<lambda>c. c = dq) (replicate m dq @ s @ replicate n dq) = stripBoth (\<lambda>c. c = dq) s"
    by (rule stripBoth_wrapped) simp
  then show ?thesis by (simp only: normalize_rt_unfold)
qed

lemma normalize_rt_contract:
  assumes w: "\<forall>c\<in>set w1 \<union> set w2. white c"
    and core: "core = [] \<or> (\<not> white (hd core) \<and> \<not> white (last core))"
    and noq: "w1 @ core @ w2 = [] \<or> (hd (w1 @ core @ w2) \<noteq> dq \<and> last (w1 @ core @ w2) \<noteq> dq)"
  shows "normalize_rt upper white dq (replicate m dq @ (w1 @ core @ w2) @ replicate n dq) = upper core"
proof -
  have "stripBoth (\<lambda>c. c = dq) (replicate m dq @ (w1 @ core @ w2) @ replicate n dq)
      = stripBoth (\<lambda>c. c = dq) (w1 @ core @ w2)"
    by (rule stripBoth_wrapped) simp
  also have "\<dots> = w1 @ core @ w2" using noq by (intro stripBoth_id) simp
  finally have sq: "stripBoth (\<lambda>c. c = dq) (replicate m dq @ (w1 @ core @ w2) @ replicate n dq)
      = w1 @ core @ w2" .
  have tr: "stripBoth white (w1 @ core @ w2) = core" using w core by (rule stripBoth_padded)
  show ?thesis by (simp only: normalize_rt_unfold sq tr)
qed

lemma of_char_asciiUpperChar:
  "(of_char (asciiUpperChar c) :: nat) = (if 97 \<le> (of_char c :: nat) \<and> (of_char c :: nat) \<le> 122 then of_char c - 32 else of_char c)"
  by (auto simp: asciiUpperChar_def Let_def)

lemma asciiWhiteSpace_upper [simp]: "asciiWhiteSpace (asciiUpperChar c) = asciiWhiteSpace c"
  by (auto simp: asciiWhiteSpace_def of_char_asciiUpperChar Let_def)

lemma asciiUpperChar_idem [simp]: "asciiUpperChar (asciiUpperChar c) = asciiUpperChar c"
proof -
  have "(of_char (asciiUpperChar (asciiUpperChar c)) :: nat) = of_char (asciiUpperChar c)"
    by (auto simp: of_char_asciiUpperChar)
  then show ?thesis by simp
qed

lemma asciiUpperChar_dquote [simp]: "asciiUpperChar c = dquote \<longleftrightarrow> c = dquote"
proof -
  have "(of_char (asciiUpperChar c) :: nat) = of_char dquote \<longleftrightarrow> (of_char c :: nat) = of_char dquote"
    by (auto simp: of_char_asciiUpperChar dquote_def)
  then show ?thesis by simp
qed

lemma ascii_runtime:
  "asciiUpperCase (asciiUpperCase s) = asciiUpperCase s"
  "asciiUpperCase (stripQuotes dquote s) = stripQuotes dquote (asciiUpperCase s)"
  "asciiUpperCase (trim asciiWhiteSpace s) = trim asciiWhiteSpace (asciiUpperCase s)"
  by (simp_all add: asciiUpperCase_def stripQuotes_def trim_def stripBoth_map)


section \<open>Auxiliary facts: sets, the identity index and the loops of buildOverlay\<close>

lemma set_setAdd [simp]: "set (setAdd xs x) = insert x (set xs)"
  by (auto simp: setAdd_def)

lemma set_addAll [simp]: "set (addAll acc xs) = set acc \<union> set xs"
  by (induction xs arbitrary: acc) auto

lemma distinct_setAdd: "distinct xs \<Longrightarrow> distinct (setAdd xs x)"
  by (auto simp: setAdd_def)

lemma distinct_addAll: "distinct acc \<Longrightarrow> distinct (addAll acc xs)"
  by (induction xs arbitrary: acc) (auto simp: distinct_setAdd)

lemma set_getOrEmpty_indexKeys:
  "set (getOrEmpty (indexKeys m i keys) k) =
     set (getOrEmpty m k) \<union> {j. j = i \<and> (\<exists>s. Some s \<in> set keys \<and> s \<noteq> [] \<and> normalize_str s = k)}"
proof (induction m i keys rule: indexKeys.induct)
  case (1 m i)
  then show ?case by simp
next
  case (2 m i keys)
  then show ?case by simp
next
  case (3 m i key keys)
  show ?case
  proof (cases "key = []")
    case True
    with 3 show ?thesis by auto
  next
    case False
    have upd: "set (getOrEmpty (m(normalize_str key \<mapsto> getOrEmpty m (normalize_str key) @ [i])) k) =
        set (getOrEmpty m k) \<union> {j. j = i \<and> normalize_str key = k}"
      by (auto simp: getOrEmpty_def)
    have "set (getOrEmpty (indexKeys m i (Some key # keys)) k) =
        set (getOrEmpty (indexKeys (m(normalize_str key \<mapsto> getOrEmpty m (normalize_str key) @ [i])) i keys) k)"
      using False by (simp add: Let_def)
    also have "\<dots> = set (getOrEmpty (m(normalize_str key \<mapsto> getOrEmpty m (normalize_str key) @ [i])) k)
        \<union> {j. j = i \<and> (\<exists>s. Some s \<in> set keys \<and> s \<noteq> [] \<and> normalize_str s = k)}"
      by (rule 3(2) [OF False refl refl])
    finally show ?thesis using False by (auto simp: upd)
  qed
qed

lemma set_getOrEmpty_buildNameMap:
  "set (getOrEmpty (buildNameMap m ns) k) =
     set (getOrEmpty m k) \<union>
     {node_id n | n s. n \<in> set ns \<and> Some s \<in> {Some (node_id n), label n, description n}
        \<and> s \<noteq> [] \<and> normalize_str s = k}"
proof (induction ns arbitrary: m)
  case Nil
  then show ?case by simp
next
  case (Cons n ns)
  show ?case
    unfolding buildNameMap.simps Cons.IH set_getOrEmpty_indexKeys
    by auto
qed

lemma getOrEmpty_empty [simp]: "getOrEmpty Map.empty k = []"
  by (simp add: getOrEmpty_def)

lemma set_hitLoop:
  "set (hitLoop m hit nds) = set hit \<union> (\<Union>nd\<in>set nds. set (getOrEmpty m (normalize_str (entity_name nd))))"
  by (induction nds arbitrary: hit) (auto simp: Let_def)

lemma set_fst_pathLoop:
  "set (fst (pathLoop m (pn, pe) ps)) =
     set pn \<union> (\<Union>p\<in>set ps. set (getOrEmpty m (normalize_str (fst (src_tgt p))))
                         \<union> set (getOrEmpty m (normalize_str (snd (src_tgt p)))))"
  by (induction ps arbitrary: pn pe) (auto simp: Let_def)

lemma set_snd_pathLoop:
  "set (snd (pathLoop m (pn, pe) ps)) =
     set pe \<union> (\<Union>p\<in>set ps. {keyOf (normalize_str (fst (src_tgt p))) (normalize_str (snd (src_tgt p))),
                              keyOf (normalize_str (snd (src_tgt p))) (normalize_str (fst (src_tgt p)))})"
  by (induction ps arbitrary: pn pe) (auto simp: Let_def)

lemma indexKeys_None_iff:
  "indexKeys m i keys k = None \<longleftrightarrow>
     m k = None \<and> \<not> (\<exists>s. Some s \<in> set keys \<and> s \<noteq> [] \<and> normalize_str s = k)"
proof (induction m i keys rule: indexKeys.induct)
  case (1 m i)
  then show ?case by simp
next
  case (2 m i keys)
  then show ?case by simp
next
  case (3 m i key keys)
  show ?case
  proof (cases "key = []")
    case True
    with 3 show ?thesis by auto
  next
    case False
    have "indexKeys m i (Some key # keys) k =
        indexKeys (m(normalize_str key \<mapsto> getOrEmpty m (normalize_str key) @ [i])) i keys k"
      using False by (simp add: Let_def)
    moreover have "indexKeys (m(normalize_str key \<mapsto> getOrEmpty m (normalize_str key) @ [i])) i keys k = None \<longleftrightarrow>
        (m(normalize_str key \<mapsto> getOrEmpty m (normalize_str key) @ [i])) k = None
        \<and> \<not> (\<exists>s. Some s \<in> set keys \<and> s \<noteq> [] \<and> normalize_str s = k)"
      by (rule 3(2) [OF False refl refl])
    ultimately show ?thesis using False by auto
  qed
qed

lemma buildNameMap_None_iff:
  "buildNameMap m ns k = None \<longleftrightarrow>
     m k = None \<and> \<not> (\<exists>n s. n \<in> set ns \<and> Some s \<in> {Some (node_id n), label n, description n}
        \<and> s \<noteq> [] \<and> normalize_str s = k)"
proof (induction ns arbitrary: m)
  case Nil
  then show ?case by simp
next
  case (Cons n ns)
  show ?case
    unfolding buildNameMap.simps Cons.IH indexKeys_None_iff
    by auto
qed

lemma getOrEmpty_Some: "m k = Some ids \<Longrightarrow> getOrEmpty m k = ids"
  by (simp add: getOrEmpty_def)

lemma getOrEmpty_None: "m k = None \<Longrightarrow> getOrEmpty m k = []"
  by (simp add: getOrEmpty_def)

lemma index_ids_are_node_ids:
  "set (getOrEmpty (buildNameMap Map.empty ns) k) \<subseteq> node_id ` set ns"
  by (auto simp: set_getOrEmpty_buildNameMap)

lemma snd_pathLoop_indep:
  "snd (pathLoop m (pn, pe) ps) = snd (pathLoop m' (pn', pe) ps)"
  by (induction ps arbitrary: pn pn' pe) (simp_all add: Let_def)

lemma buildOverlay_total:
  assumes "node_datas (node_hits res) = Some nds"
  shows "buildOverlay res ns =
     Inr \<lparr>hitNodeIds = hitLoop (buildNameMap Map.empty ns) [] nds,
          pathNodeIds = fst (pathLoop (buildNameMap Map.empty ns) ([], [])
            (case use_reasoning_path (node_hits res) of None \<Rightarrow> [] | Some r \<Rightarrow> r)),
          pathEdgeKeys = snd (pathLoop (buildNameMap Map.empty ns) ([], [])
            (case use_reasoning_path (node_hits res) of None \<Rightarrow> [] | Some r \<Rightarrow> r))\<rparr>"
  using assms by (simp add: buildOverlay_def Let_def)

lemma hit_ids_by_index: "set (hitLoop (buildNameMap Map.empty ns) [] nds) =
      (\<Union>nd\<in>set nds. set (getOrEmpty (buildNameMap Map.empty ns) (normalize_str (entity_name nd))))"
    by (simp add: set_hitLoop)

lemma index_hits_by_attribute: "(\<Union>nd\<in>set nds. set (getOrEmpty (buildNameMap Map.empty ns) (normalize_str (entity_name nd)))) =
         {node_id n | n nd s. n \<in> set ns \<and> nd \<in> set nds
            \<and> Some s \<in> {Some (node_id n), label n, description n}
            \<and> s \<noteq> [] \<and> normalize_str s = normalize_str (entity_name nd)}"
proof (rule set_eqI)
  fix x
  show "x \<in> (\<Union>nd\<in>set nds. set (getOrEmpty (buildNameMap Map.empty ns) (normalize_str (entity_name nd)))) \<longleftrightarrow>
    x \<in> {node_id n | n nd s. n \<in> set ns \<and> nd \<in> set nds
            \<and> Some s \<in> {Some (node_id n), label n, description n}
            \<and> s \<noteq> [] \<and> normalize_str s = normalize_str (entity_name nd)}"
    unfolding UN_iff set_getOrEmpty_buildNameMap getOrEmpty_empty mem_Collect_eq
    by (simp only: set_simps Un_empty_left mem_Collect_eq) blast
qed

lemma shared_label_both_hit:
  assumes "n1 \<in> set ns" "n2 \<in> set ns" "nd \<in> set nds"
    "label n1 = Some l1" "label n2 = Some l2" "l1 \<noteq> []" "l2 \<noteq> []"
    "normalize_str l1 = normalize_str (entity_name nd)"
    "normalize_str l2 = normalize_str (entity_name nd)"
  shows "node_id n1 \<in> set (hitLoop (buildNameMap Map.empty ns) [] nds)
       \<and> node_id n2 \<in> set (hitLoop (buildNameMap Map.empty ns) [] nds)"
proof -
  have "node_id n \<in> set (hitLoop (buildNameMap Map.empty ns) [] nds)"
    if "n \<in> set ns" "label n = Some l" "l \<noteq> []" "normalize_str l = normalize_str (entity_name nd)" for n l
  proof -
    have "Some l \<in> {Some (node_id n), label n, description n}" using that by simp
    with that assms(3) show ?thesis
      unfolding hit_ids_by_index index_hits_by_attribute by blast
  qed
  with assms show ?thesis by blast
qed

lemma egg_scenario: "buildOverlay
          \<lparr>node_hits = \<lparr>use_reasoning_path = Some [\<lparr>src_tgt = (''Egg'', ''Boil'')\<rparr>],
                        node_datas = Some [\<lparr>entity_name = ''EGG''\<rparr>]\<rparr>\<rparr>
          [\<lparr>node_id = ''n1'', label = Some ''Egg'', description = None, level = 0\<rparr>,
           \<lparr>node_id = ''n2'', label = Some ''Boil'', description = None, level = 1\<rparr>]
        = Inr \<lparr>hitNodeIds = [''n1''], pathNodeIds = [''n1'', ''n2''],
               pathEdgeKeys = [''EGG||BOIL'', ''BOIL||EGG'']\<rparr>"
    by code_simp

lemma path_keys_present:
  assumes "p \<in> set ps"
  shows "keyOf (normalize_str (fst (src_tgt p))) (normalize_str (snd (src_tgt p))) \<in> set (snd (pathLoop m ([], []) ps))
       \<and> keyOf (normalize_str (snd (src_tgt p))) (normalize_str (fst (src_tgt p))) \<in> set (snd (pathLoop m ([], []) ps))"
  using assms unfolding set_snd_pathLoop by blast

lemma path_keys_mirrored:
  assumes "k \<in> set (snd (pathLoop m ([], []) ps))"
  shows "\<exists>a b. k = keyOf a b \<and> keyOf b a \<in> set (snd (pathLoop m ([], []) ps))"
proof -
  from assms obtain p where p: "p \<in> set ps"
    and k: "k = keyOf (normalize_str (fst (src_tgt p))) (normalize_str (snd (src_tgt p)))
          \<or> k = keyOf (normalize_str (snd (src_tgt p))) (normalize_str (fst (src_tgt p)))"
    unfolding set_snd_pathLoop by auto
  from path_keys_present [OF p, of m] k show ?thesis by blast
qed

lemma path_ids_from_index:
  "set (fst (pathLoop (buildNameMap Map.empty ns) ([], []) ps)) \<subseteq> node_id ` set ns"
  unfolding set_fst_pathLoop using index_ids_are_node_ids by fastforce

lemma hit_ids_from_index:
  "set (hitLoop (buildNameMap Map.empty ns) [] nds) \<subseteq> node_id ` set ns"
  unfolding set_hitLoop using index_ids_are_node_ids by fastforce

lemma hitLoop_no_match:
  assumes "\<forall>nd\<in>set nds. m (normalize_str (entity_name nd)) = None"
  shows "hitLoop m [] nds = []"
proof -
  have "set (hitLoop m [] nds) = {}"
    unfolding set_hitLoop using assms by (simp add: getOrEmpty_None)
  then show ?thesis by simp
qed

lemma pathLoop_no_match:
  assumes "\<forall>p\<in>set ps. m (normalize_str (fst (src_tgt p))) = None \<and> m (normalize_str (snd (src_tgt p))) = None"
  shows "fst (pathLoop m ([], []) ps) = []"
proof -
  have "set (fst (pathLoop m ([], []) ps)) = {}"
    unfolding set_fst_pathLoop using assms by (simp add: getOrEmpty_None)
  then show ?thesis by simp
qed

lemma buildNameMap_Some:
  assumes "buildNameMap Map.empty ns k = Some ids"
  shows "set ids = {node_id n | n s. n \<in> set ns \<and> Some s \<in> {Some (node_id n), label n, description n}
        \<and> s \<noteq> [] \<and> normalize_str s = k}"
    and "ids \<noteq> []"
proof -
  have "set ids = set (getOrEmpty (buildNameMap Map.empty ns) k)"
    using assms by (simp add: getOrEmpty_Some)
  then show s: "set ids = {node_id n | n s. n \<in> set ns \<and> Some s \<in> {Some (node_id n), label n, description n}
        \<and> s \<noteq> [] \<and> normalize_str s = k}"
    unfolding set_getOrEmpty_buildNameMap by simp
  from assms have "buildNameMap Map.empty ns k \<noteq> None" by simp
  then have "\<exists>n s. n \<in> set ns \<and> Some s \<in> {Some (node_id n), label n, description n}
        \<and> s \<noteq> [] \<and> normalize_str s = k"
    unfolding buildNameMap_None_iff by simp
  then obtain n s where "n \<in> set ns" "Some s \<in> {Some (node_id n), label n, description n}"
    "s \<noteq> []" "normalize_str s = k" by blast
  then have "node_id n \<in> {node_id n | n s. n \<in> set ns \<and> Some s \<in> {Some (node_id n), label n, description n}
        \<and> s \<noteq> [] \<and> normalize_str s = k}" by blast
  then have "node_id n \<in> set ids" by (simp only: s)
  then show "ids \<noteq> []" by auto
qed

lemma buildOverlay_empty_node_hits:
  "use_reasoning_path (node_hits res) \<in> {None, Some []} \<Longrightarrow> node_datas (node_hits res) = Some [] \<Longrightarrow>
     buildOverlay res ns = Inr \<lparr>hitNodeIds = [], pathNodeIds = [], pathEdgeKeys = []\<rparr>"
  by (auto simp: buildOverlay_def)


section \<open>Auxiliary facts: edgeKey, the merged overlay, the camera effects, the level scan\<close>

lemma edgeKey_g_endpoint:
  assumes "endpointId x = Some a"
  shows "edgeKey_g x = Inr (normalize_str a)"
  using assms
  by (auto simp: endpointId_def edgeKey_g_def getProp_def normalizeAny_def Let_def
      split: jsval.splits option.splits)

lemma edgeKey_endpoints:
  assumes "endpointId (getProp (JObject props) ''source'') = Some a"
    and "endpointId (getProp (JObject props) ''target'') = Some b"
  shows "edgeKey (JObject props) = Inr (keyOf (normalize_str a) (normalize_str b))"
  using edgeKey_g_endpoint [OF assms(1)] edgeKey_g_endpoint [OF assms(2)]
  by (simp add: edgeKey_def)

lemma edgeKey_strings:
  assumes "getProp (JObject props) ''source'' = JString s"
    and "getProp (JObject props) ''target'' = JString t"
  shows "edgeKey (JObject props) = Inr (keyOf (normalize_str s) (normalize_str t))"
  by (rule edgeKey_endpoints) (simp_all add: assms endpointId_def)

lemma mergeLoop_members:
  assumes "mergeLoop acc (Some nds) msgs = Inr mo"
  shows "(x \<in> set (hitNodeIds mo) \<longleftrightarrow> x \<in> set (hitNodeIds acc) \<or>
            (\<exists>m r ov. m \<in> set msgs \<and> retrieval m = Some r \<and> buildOverlay r nds = Inr ov \<and> x \<in> set (hitNodeIds ov)))
       \<and> (x \<in> set (pathNodeIds mo) \<longleftrightarrow> x \<in> set (pathNodeIds acc) \<or>
            (\<exists>m r ov. m \<in> set msgs \<and> retrieval m = Some r \<and> buildOverlay r nds = Inr ov \<and> x \<in> set (pathNodeIds ov)))
       \<and> (x \<in> set (pathEdgeKeys mo) \<longleftrightarrow> x \<in> set (pathEdgeKeys acc) \<or>
            (\<exists>m r ov. m \<in> set msgs \<and> retrieval m = Some r \<and> buildOverlay r nds = Inr ov \<and> x \<in> set (pathEdgeKeys ov)))"
  using assms
proof (induction msgs arbitrary: acc)
  case Nil
  then show ?case by simp
next
  case (Cons msg msgs)
  show ?case
  proof (cases "retrieval msg")
    case None
    with Cons.prems have "mergeLoop acc (Some nds) msgs = Inr mo" by simp
    from Cons.IH [OF this] None show ?thesis by auto
  next
    case (Some r)
    show ?thesis
    proof (cases "buildOverlay r nds")
      case (Inl e)
      with Some Cons.prems show ?thesis by simp
    next
      case (Inr ov)
      let ?acc = "\<lparr>hitNodeIds = addAll (hitNodeIds acc) (hitNodeIds ov),
                  pathNodeIds = addAll (pathNodeIds acc) (pathNodeIds ov),
                  pathEdgeKeys = addAll (pathEdgeKeys acc) (pathEdgeKeys ov)\<rparr>"
      from Cons.prems Some Inr have "mergeLoop ?acc (Some nds) msgs = Inr mo" by simp
      from Cons.IH [OF this] Some Inr show ?thesis
        by (simp add: ex_disj_distrib conj_disj_distribR)
    qed
  qed
qed

lemma mergeLoop_total:
  assumes "\<forall>m\<in>set msgs. \<forall>r. retrieval m = Some r \<longrightarrow> node_datas (node_hits r) \<noteq> None"
  shows "\<exists>mo. mergeLoop acc (Some nds) msgs = Inr mo"
  using assms
proof (induction msgs arbitrary: acc)
  case Nil
  then show ?case by simp
next
  case (Cons msg msgs)
  show ?case
  proof (cases "retrieval msg")
    case None
    with Cons show ?thesis by simp
  next
    case (Some r)
    with Cons.prems obtain nd where "node_datas (node_hits r) = Some nd" by auto
    from buildOverlay_total [OF this, of nds] obtain ov where "buildOverlay r nds = Inr ov" by blast
    with Some Cons show ?thesis by simp
  qed
qed

lemma frameQueue_runTask [simp]: "frameQueue (runTask t st) = frameQueue st"
  by (cases t) simp_all

lemma frameQueue_fold_runTask [simp]: "frameQueue (fold runTask ts st) = frameQueue st"
  by (induction ts arbitrary: st) simp_all

lemma frameQueue_animationFrame [simp]: "frameQueue (animationFrame st) = []"
  by (simp add: animationFrame_def)

lemma zoomSig_fold_no_reset:
  "ResetFit \<notin> set ts \<Longrightarrow> zoomSigRef (fold runTask ts st) = zoomSigRef st"
proof (induction ts arbitrary: st)
  case Nil
  then show ?case by simp
next
  case (Cons t ts)
  then show ?case by (cases t) simp_all
qed

lemma zoomSig_animationFrame_no_reset:
  "ResetFit \<notin> set (frameQueue st) \<Longrightarrow> zoomSigRef (animationFrame st) = zoomSigRef st"
  by (simp add: animationFrame_def zoomSig_fold_no_reset)

lemma zoomSig_after_reset_frame:
  "zoomSigRef (animationFrame (resetZoomEffect True (Some t) st)) = ''reset''"
  by (simp add: animationFrame_def resetZoomEffect_def)

lemma overlayZoomEffect_fit:
  assumes "focusSetOf overlay \<noteq> []"
    and "signatureOf (focusSetOf overlay) \<noteq> zoomSigRef st"
  shows "overlayZoomEffect True overlay st =
     st\<lparr>zoomSigRef := signatureOf (focusSetOf overlay),
        frameQueue := frameQueue st @ [FocusFit (focusSetOf overlay)]\<rparr>"
  using assms by (simp add: overlayZoomEffect_def Let_def)

lemma overlayZoomEffect_same:
  assumes "signatureOf (focusSetOf overlay) = zoomSigRef st"
  shows "overlayZoomEffect fg overlay st = st"
  using assms by (simp add: overlayZoomEffect_def Let_def)

lemma zoomSig_after_overlay:
  "fg \<Longrightarrow> focusSetOf overlay \<noteq> [] \<Longrightarrow>
     zoomSigRef (overlayZoomEffect fg overlay st) = signatureOf (focusSetOf overlay)"
  by (simp add: overlayZoomEffect_def Let_def)

lemma overlayZoomEffect_cases:
  "overlayZoomEffect fg overlay st = st \<or>
   (zoomSigRef (overlayZoomEffect fg overlay st) = signatureOf (focusSetOf overlay)
    \<and> frameQueue (overlayZoomEffect fg overlay st) = frameQueue st @ [FocusFit (focusSetOf overlay)])"
  by (simp add: overlayZoomEffect_def Let_def)

lemma overlayZoomEffect_twice:
  "overlayZoomEffect fg overlay (overlayZoomEffect fg overlay st) = overlayZoomEffect fg overlay st"
proof -
  from overlayZoomEffect_cases [of fg overlay st] show ?thesis
  proof
    assume "overlayZoomEffect fg overlay st = st"
    then show ?thesis by simp
  next
    assume "zoomSigRef (overlayZoomEffect fg overlay st) = signatureOf (focusSetOf overlay)
      \<and> frameQueue (overlayZoomEffect fg overlay st) = frameQueue st @ [FocusFit (focusSetOf overlay)]"
    then have "signatureOf (focusSetOf overlay) = zoomSigRef (overlayZoomEffect fg overlay st)" by simp
    then show ?thesis by (rule overlayZoomEffect_same)
  qed
qed

lemma overlayZoomEffect_queue:
  "frameQueue (overlayZoomEffect fg overlay st) = frameQueue st \<or>
   frameQueue (overlayZoomEffect fg overlay st) = frameQueue st @ [FocusFit (focusSetOf overlay)]"
  using overlayZoomEffect_cases [of fg overlay st] by auto

lemma frameQueue_overlayZoomEffect_subset:
  "ResetFit \<notin> set (frameQueue st) \<Longrightarrow> ResetFit \<notin> set (frameQueue (overlayZoomEffect fg overlay st))"
  using overlayZoomEffect_queue [of fg overlay st] by auto




section \<open>Auxiliary facts: rounding to a double\<close>













lemma roundDouble_zero [simp]: "roundDouble 0 = 0"
  by (simp add: roundDouble_def)








section \<open>Auxiliary facts: the bands\<close>





















section \<open>Claims about the normalizer\<close>

text \<open>
  C1, as stated: \<open>normalize\<close> is idempotent, and \<open>normalize('"Foo" ') == normalize('FOO')\<close>.
  Both parts fail at the input \<open>"Foo"\<close> followed by a blank: the quotes are stripped
  before the text is trimmed, so the closing quote, shielded by the blank, survives the
  first pass (\<open>FOO"\<close>) and is only removed by a second one (\<open>FOO\<close>).
\<close>

theorem normalize_not_idempotent:
  \<open>normalize_str (normalize_str ''"Foo" '') \<noteq> normalize_str ''"Foo" ''
   \<and> normalize_str ''"Foo" '' \<noteq> normalize_str ''FOO''\<close>
  by code_simp

text \<open>
  C1, amended. \<open>normalize\<close> strips the run of double quotes at the start and the run at
  the end, then trims the white space around what is left, then upper-cases: a text
  made of \<open>m\<close> quotes, white space \<open>pre\<close>, a core without white space at its ends, white
  space \<open>post\<close> and \<open>n\<close> quotes, where no quote is next to the outer runs, has the normal
  form \<open>upper core\<close>. Every text has that shape, so this fixes the result on every input
  and in every run time. Quotes wrapped directly around a text are ignored.

  In a run time whose \<open>toUpperCase\<close> is idempotent and commutes with \<open>trim\<close> and with the
  stripping of quotes, \<open>normalize(normalize(x)) == normalize(x)\<close> holds exactly when
  \<open>normalize(x)\<close> is empty or neither begins nor ends with a double quote, and texts with
  the same upper-casing have the same normal form. ECMAScript's built-ins are such a
  run time: upper-casing works code point by code point, leaves white space and the
  double quote alone, puts neither at an end of the image of another code point, and
  changes nothing in an upper-cased text. So is the ASCII instance \<open>normalize_str\<close>, for
  which \<open>"Foo"\<close> in quotes, \<open>foo\<close> between blanks and \<open>FOO\<close> all have the normal form \<open>FOO\<close>,
  and \<open>"Foo"\<close> followed by a blank has \<open>FOO"\<close>.
\<close>

theorem normalize_fixed_point:
  \<open>((\<forall>c\<in>set pre \<union> set post. white c)
      \<and> (core = [] \<or> (\<not> white (hd core) \<and> \<not> white (last core)))
      \<and> (pre @ core @ post = []
          \<or> (hd (pre @ core @ post) \<noteq> dq \<and> last (pre @ core @ post) \<noteq> dq))
     \<longrightarrow> normalize_rt upper white dq (replicate m dq @ (pre @ core @ post) @ replicate n dq)
          = upper core)
   \<and> normalize_rt upper white dq (replicate m dq @ x @ replicate n dq) = normalize_rt upper white dq x
   \<and> ((\<forall>s. upper (upper s) = upper s)
       \<and> (\<forall>s. upper (stripQuotes dq s) = stripQuotes dq (upper s))
       \<and> (\<forall>s. upper (trim white s) = trim white (upper s))
     \<longrightarrow> (normalize_rt upper white dq (normalize_rt upper white dq x) = normalize_rt upper white dq x
            \<longleftrightarrow> normalize_rt upper white dq x = []
                \<or> (hd (normalize_rt upper white dq x) \<noteq> dq
                    \<and> last (normalize_rt upper white dq x) \<noteq> dq))
         \<and> (upper a = upper b \<longrightarrow> normalize_rt upper white dq a = normalize_rt upper white dq b))
   \<and> normalize_str = normalize_rt asciiUpperCase asciiWhiteSpace dquote
   \<and> normalize_str ''"Foo"'' = ''FOO''
   \<and> normalize_str '' foo '' = ''FOO''
   \<and> normalize_str ''FOO'' = ''FOO''
   \<and> normalize_str ''"Foo" '' = ''FOO"''\<close>
proof -
  have contract: "(\<forall>c\<in>set pre \<union> set post. white c)
      \<and> (core = [] \<or> (\<not> white (hd core) \<and> \<not> white (last core)))
      \<and> (pre @ core @ post = []
          \<or> (hd (pre @ core @ post) \<noteq> dq \<and> last (pre @ core @ post) \<noteq> dq))
     \<longrightarrow> normalize_rt upper white dq (replicate m dq @ (pre @ core @ post) @ replicate n dq)
          = upper core"
  proof (intro impI, elim conjE)
    assume w: "\<forall>c\<in>set pre \<union> set post. white c"
      and c: "core = [] \<or> (\<not> white (hd core) \<and> \<not> white (last core))"
      and q: "pre @ core @ post = []
          \<or> (hd (pre @ core @ post) \<noteq> dq \<and> last (pre @ core @ post) \<noteq> dq)"
    from w c q show "normalize_rt upper white dq (replicate m dq @ (pre @ core @ post) @ replicate n dq)
          = upper core"
      by (rule normalize_rt_contract)
  qed
  have wrapped: "normalize_rt upper white dq (replicate m dq @ x @ replicate n dq) = normalize_rt upper white dq x"
    by (rule normalize_rt_wrapped)
  have laws: "(\<forall>s. upper (upper s) = upper s)
       \<and> (\<forall>s. upper (stripQuotes dq s) = stripQuotes dq (upper s))
       \<and> (\<forall>s. upper (trim white s) = trim white (upper s))
     \<longrightarrow> (normalize_rt upper white dq (normalize_rt upper white dq x) = normalize_rt upper white dq x
            \<longleftrightarrow> normalize_rt upper white dq x = []
                \<or> (hd (normalize_rt upper white dq x) \<noteq> dq
                    \<and> last (normalize_rt upper white dq x) \<noteq> dq))
         \<and> (upper a = upper b \<longrightarrow> normalize_rt upper white dq a = normalize_rt upper white dq b)"
  proof (intro impI conjI, goal_cases)
    case 1
    then have i: "\<And>s. upper (upper s) = upper s"
      and cq: "\<And>s. upper (stripQuotes dq s) = stripQuotes dq (upper s)"
      and cw: "\<And>s. upper (trim white s) = trim white (upper s)" by simp_all
    from i cq cw show ?case by (rule normalize_rt_fixed_iff)
  next
    case 2
    then have cq: "\<And>s. upper (stripQuotes dq s) = stripQuotes dq (upper s)"
      and cw: "\<And>s. upper (trim white s) = trim white (upper s)"
      and eq: "upper a = upper b" by simp_all
    from cq cw eq show ?case by (rule normalize_rt_case_insensitive)
  qed
  have inst: "normalize_str = normalize_rt asciiUpperCase asciiWhiteSpace dquote"
    by (simp add: fun_eq_iff normalize_str_def)
  have v1: \<open>normalize_str ''"Foo"'' = ''FOO''\<close> by code_simp
  have v2: "normalize_str '' foo '' = ''FOO''" by code_simp
  have v3: "normalize_str ''FOO'' = ''FOO''" by code_simp
  have v4: \<open>normalize_str ''"Foo" '' = ''FOO"''\<close> by code_simp
  from contract wrapped laws inst v1 v2 v3 v4 show ?thesis by (intro conjI)
qed

text \<open>The amended claim in the ASCII run time: the contract at one quote, a blank, \<open>Foo\<close>,
  a blank and one quote; idempotence at \<open>x = "Foo"\<close> (in quotes); case-insensitivity at
  \<open>a = foo\<close>, \<open>b = FOO\<close>.\<close>

theorem normalize_fixed_point_witness:
  \<open>normalize_str ''" Foo "'' = ''FOO''
   \<and> normalize_str (normalize_str ''"Foo"'') = normalize_str ''"Foo"''
   \<and> normalize_str ''foo'' = normalize_str ''FOO''\<close>
proof -
  note t = normalize_fixed_point [where pre = "'' ''" and post = "'' ''" and core = "''Foo''"
      and white = asciiWhiteSpace and dq = dquote and upper = asciiUpperCase and m = 1 and n = 1
      and x = \<open>''"Foo"''\<close> and a = "''foo''" and b = "''FOO''"]
  have w: "\<forall>c\<in>set '' '' \<union> set '' ''. asciiWhiteSpace c" by code_simp
  have c: "''Foo'' = [] \<or> (\<not> asciiWhiteSpace (hd ''Foo'') \<and> \<not> asciiWhiteSpace (last ''Foo''))"
    by code_simp
  have q: "'' '' @ ''Foo'' @ '' '' = []
      \<or> (hd ('' '' @ ''Foo'' @ '' '') \<noteq> dquote \<and> last ('' '' @ ''Foo'' @ '' '') \<noteq> dquote)"
    by code_simp
  have shape: \<open>replicate 1 dquote @ ('' '' @ ''Foo'' @ '' '') @ replicate 1 dquote = ''" Foo "''\<close>
    by code_simp
  have up: "asciiUpperCase ''Foo'' = ''FOO''" by code_simp
  note contract = t [THEN conjunct1, THEN mp, OF conjI [OF w conjI [OF c q]]]
  from contract have 1: \<open>normalize_str ''" Foo "'' = ''FOO''\<close>
    by (simp only: shape up normalize_str_def)
  have laws: "(\<forall>s. asciiUpperCase (asciiUpperCase s) = asciiUpperCase s)
       \<and> (\<forall>s. asciiUpperCase (stripQuotes dquote s) = stripQuotes dquote (asciiUpperCase s))
       \<and> (\<forall>s. asciiUpperCase (trim asciiWhiteSpace s) = trim asciiWhiteSpace (asciiUpperCase s))"
    by (simp only: ascii_runtime simp_thms)
  note r = t [THEN conjunct2, THEN conjunct2, THEN conjunct1, THEN mp, OF laws]
  have e: \<open>normalize_rt asciiUpperCase asciiWhiteSpace dquote ''"Foo"'' = ''FOO''\<close> by code_simp
  have d: "hd ''FOO'' \<noteq> dquote \<and> last ''FOO'' \<noteq> dquote" by code_simp
  have u: "asciiUpperCase ''foo'' = asciiUpperCase ''FOO''" by code_simp
  have \<open>normalize_rt asciiUpperCase asciiWhiteSpace dquote
          (normalize_rt asciiUpperCase asciiWhiteSpace dquote ''"Foo"'')
        = normalize_rt asciiUpperCase asciiWhiteSpace dquote ''"Foo"''\<close>
    by (rule iffD2 [OF r [THEN conjunct1]]) (simp only: e, rule disjI2, rule d)
  then have 2: \<open>normalize_str (normalize_str ''"Foo"'') = normalize_str ''"Foo"''\<close>
    by (simp only: normalize_str_def)
  from r [THEN conjunct2, THEN mp, OF u]
  have 3: "normalize_str ''foo'' = normalize_str ''FOO''"
    by (simp only: normalize_str_def)
  from 1 2 3 show ?thesis by (intro conjI)
qed


section \<open>Claims about buildOverlay\<close>

text \<open>
  C3: a retrieval result whose \<open>node_hits\<close> substructures are absent or empty never makes
  \<open>buildOverlay\<close> throw. An absent \<open>use_reasoning_path\<close> is indeed read as the empty
  sequence (\<open>buildOverlay_empty_node_hits\<close> above), but \<open>node_datas\<close> is iterated as it
  is: at the input below, which \<open>getContextData\<close> passes on unchanged from a context file
  without \<open>node_datas\<close>, the function throws.
\<close>

theorem buildOverlay_absent_node_datas_throws:
  "buildOverlay \<lparr>node_hits = \<lparr>use_reasoning_path = Some [], node_datas = None\<rparr>\<rparr> [] = Inl TypeError"
  by (simp add: buildOverlay_def)

text \<open>
  C5: \<open>hitNodeIds\<close> is exactly the union, over the \<open>node_datas\<close> entries, of the ids the
  identity index holds under the normalized \<open>entity_name\<close>, that is the ids of the nodes
  with a non-empty id, label or description of that normal form; two nodes sharing a
  label are both hit; and the egg scenario gives the three expected sets.
\<close>

theorem buildOverlay_hit_nodes:
  assumes "node_datas (node_hits res) = Some nds"
  shows "\<exists>ov. buildOverlay res ns = Inr ov
     \<and> set (hitNodeIds ov) =
         (\<Union>nd\<in>set nds. set (getOrEmpty (buildNameMap Map.empty ns) (normalize_str (entity_name nd))))
     \<and> set (hitNodeIds ov) =
         {node_id n | n nd s. n \<in> set ns \<and> nd \<in> set nds
            \<and> Some s \<in> {Some (node_id n), label n, description n}
            \<and> s \<noteq> [] \<and> normalize_str s = normalize_str (entity_name nd)}
     \<and> (\<forall>n1 n2 nd l1 l2. n1 \<in> set ns \<and> n2 \<in> set ns \<and> nd \<in> set nds
            \<and> label n1 = Some l1 \<and> label n2 = Some l2 \<and> l1 \<noteq> [] \<and> l2 \<noteq> []
            \<and> normalize_str l1 = normalize_str (entity_name nd)
            \<and> normalize_str l2 = normalize_str (entity_name nd)
          \<longrightarrow> node_id n1 \<in> set (hitNodeIds ov) \<and> node_id n2 \<in> set (hitNodeIds ov))
     \<and> buildOverlay
          \<lparr>node_hits = \<lparr>use_reasoning_path = Some [\<lparr>src_tgt = (''Egg'', ''Boil'')\<rparr>],
                        node_datas = Some [\<lparr>entity_name = ''EGG''\<rparr>]\<rparr>\<rparr>
          [\<lparr>node_id = ''n1'', label = Some ''Egg'', description = None, level = 0\<rparr>,
           \<lparr>node_id = ''n2'', label = Some ''Boil'', description = None, level = 1\<rparr>]
        = Inr \<lparr>hitNodeIds = [''n1''], pathNodeIds = [''n1'', ''n2''],
               pathEdgeKeys = [''EGG||BOIL'', ''BOIL||EGG'']\<rparr>"
proof -
  obtain ov where ov: "buildOverlay res ns = Inr ov"
    and hit: "hitNodeIds ov = hitLoop (buildNameMap Map.empty ns) [] nds"
    using buildOverlay_total [OF assms, of ns] by simp
  have a: "set (hitNodeIds ov) =
         (\<Union>nd\<in>set nds. set (getOrEmpty (buildNameMap Map.empty ns) (normalize_str (entity_name nd))))"
    unfolding hit by (rule hit_ids_by_index)
  have b: "set (hitNodeIds ov) =
         {node_id n | n nd s. n \<in> set ns \<and> nd \<in> set nds
            \<and> Some s \<in> {Some (node_id n), label n, description n}
            \<and> s \<noteq> [] \<and> normalize_str s = normalize_str (entity_name nd)}"
    unfolding a by (rule index_hits_by_attribute)
  have c: "\<forall>n1 n2 nd l1 l2. n1 \<in> set ns \<and> n2 \<in> set ns \<and> nd \<in> set nds
            \<and> label n1 = Some l1 \<and> label n2 = Some l2 \<and> l1 \<noteq> [] \<and> l2 \<noteq> []
            \<and> normalize_str l1 = normalize_str (entity_name nd)
            \<and> normalize_str l2 = normalize_str (entity_name nd)
          \<longrightarrow> node_id n1 \<in> set (hitNodeIds ov) \<and> node_id n2 \<in> set (hitNodeIds ov)"
    unfolding hit using shared_label_both_hit [of _ ns _ _ nds] by blast
  show ?thesis
    by (intro exI [of _ ov] conjI ov a b c egg_scenario)
qed

text \<open>C5 on two nodes labelled \<open>Egg\<close> and \<open>egg\<close> and the retrieval name \<open>EGG\<close>: both ids
  are hit.\<close>

theorem buildOverlay_hit_nodes_witness:
  "\<exists>ov. buildOverlay
          \<lparr>node_hits = \<lparr>use_reasoning_path = None, node_datas = Some [\<lparr>entity_name = ''EGG''\<rparr>]\<rparr>\<rparr>
          [\<lparr>node_id = ''a'', label = Some ''Egg'', description = None, level = 0\<rparr>,
           \<lparr>node_id = ''b'', label = Some ''egg'', description = None, level = 1\<rparr>] = Inr ov
     \<and> ''a'' \<in> set (hitNodeIds ov) \<and> ''b'' \<in> set (hitNodeIds ov)"
proof -
  let ?res = "\<lparr>node_hits = \<lparr>use_reasoning_path = None, node_datas = Some [\<lparr>entity_name = ''EGG''\<rparr>]\<rparr>\<rparr>"
  let ?a = "\<lparr>node_id = ''a'', label = Some ''Egg'', description = None, level = 0\<rparr>"
  let ?b = "\<lparr>node_id = ''b'', label = Some ''egg'', description = None, level = 1\<rparr>"
  have h: "node_datas (node_hits ?res) = Some [\<lparr>entity_name = ''EGG''\<rparr>]" by simp
  from buildOverlay_hit_nodes [OF h, of "[?a, ?b]"] obtain ov where
    ov: "buildOverlay ?res [?a, ?b] = Inr ov"
    and both: "\<forall>n1 n2 nd l1 l2. n1 \<in> set [?a, ?b] \<and> n2 \<in> set [?a, ?b] \<and> nd \<in> set [\<lparr>entity_name = ''EGG''\<rparr>]
            \<and> label n1 = Some l1 \<and> label n2 = Some l2 \<and> l1 \<noteq> [] \<and> l2 \<noteq> []
            \<and> normalize_str l1 = normalize_str (entity_name nd)
            \<and> normalize_str l2 = normalize_str (entity_name nd)
          \<longrightarrow> node_id n1 \<in> set (hitNodeIds ov) \<and> node_id n2 \<in> set (hitNodeIds ov)"
    by blast
  have e1: "normalize_str ''Egg'' = normalize_str ''EGG''" by code_simp
  have e2: "normalize_str ''egg'' = normalize_str ''EGG''" by code_simp
  have "node_id ?a \<in> set (hitNodeIds ov) \<and> node_id ?b \<in> set (hitNodeIds ov)"
    using both [rule_format, of ?a ?b "\<lparr>entity_name = ''EGG''\<rparr>" "''Egg''" "''egg''"] e1 e2
    by simp
  with ov show ?thesis by simp
qed

text \<open>
  C6: for every reasoning pair both orderings of the key of the two normalized strings
  are in \<open>pathEdgeKeys\<close>; every key of the set is the key of some pair \<open>(a, b)\<close> whose
  mirror \<open>(b, a)\<close> is in the set too; and the set does not depend on the node list, so
  not on whether an endpoint resolved to a node.
\<close>

theorem buildOverlay_edge_keys_mirrored:
  assumes "node_datas (node_hits res) = Some nds"
  shows "\<exists>ov. buildOverlay res ns = Inr ov
     \<and> (\<forall>p\<in>set (case use_reasoning_path (node_hits res) of None \<Rightarrow> [] | Some r \<Rightarrow> r).
           keyOf (normalize_str (fst (src_tgt p))) (normalize_str (snd (src_tgt p))) \<in> set (pathEdgeKeys ov)
         \<and> keyOf (normalize_str (snd (src_tgt p))) (normalize_str (fst (src_tgt p))) \<in> set (pathEdgeKeys ov))
     \<and> (\<forall>k\<in>set (pathEdgeKeys ov). \<exists>a b. k = keyOf a b \<and> keyOf b a \<in> set (pathEdgeKeys ov))
     \<and> (\<forall>ns' ov'. buildOverlay res ns' = Inr ov' \<longrightarrow> pathEdgeKeys ov' = pathEdgeKeys ov)"
proof -
  let ?ps = "case use_reasoning_path (node_hits res) of None \<Rightarrow> [] | Some r \<Rightarrow> r"
  obtain ov where ov: "buildOverlay res ns = Inr ov"
    and keys: "pathEdgeKeys ov = snd (pathLoop (buildNameMap Map.empty ns) ([], []) ?ps)"
    using buildOverlay_total [OF assms, of ns] by simp
  have a: "\<forall>p\<in>set ?ps.
           keyOf (normalize_str (fst (src_tgt p))) (normalize_str (snd (src_tgt p))) \<in> set (pathEdgeKeys ov)
         \<and> keyOf (normalize_str (snd (src_tgt p))) (normalize_str (fst (src_tgt p))) \<in> set (pathEdgeKeys ov)"
    unfolding keys using path_keys_present by blast
  have b: "\<forall>k\<in>set (pathEdgeKeys ov). \<exists>a b. k = keyOf a b \<and> keyOf b a \<in> set (pathEdgeKeys ov)"
    unfolding keys using path_keys_mirrored by blast
  have c: "\<forall>ns' ov'. buildOverlay res ns' = Inr ov' \<longrightarrow> pathEdgeKeys ov' = pathEdgeKeys ov"
  proof (intro allI impI)
    fix ns' ov'
    assume "buildOverlay res ns' = Inr ov'"
    with buildOverlay_total [OF assms, of ns']
    have "pathEdgeKeys ov' = snd (pathLoop (buildNameMap Map.empty ns') ([], []) ?ps)" by auto
    also have "\<dots> = snd (pathLoop (buildNameMap Map.empty ns) ([], []) ?ps)"
      by (rule snd_pathLoop_indep)
    finally show "pathEdgeKeys ov' = pathEdgeKeys ov" by (simp only: keys)
  qed
  show ?thesis by (intro exI [of _ ov] conjI ov a b c)
qed

text \<open>C6 on the pair \<open>(Egg, Boil)\<close> and the empty node list.\<close>

theorem buildOverlay_edge_keys_mirrored_witness:
  "\<exists>ov. buildOverlay
          \<lparr>node_hits = \<lparr>use_reasoning_path = Some [\<lparr>src_tgt = (''Egg'', ''Boil'')\<rparr>],
                        node_datas = Some []\<rparr>\<rparr> [] = Inr ov
     \<and> ''EGG||BOIL'' \<in> set (pathEdgeKeys ov) \<and> ''BOIL||EGG'' \<in> set (pathEdgeKeys ov)"
proof -
  let ?res = "\<lparr>node_hits = \<lparr>use_reasoning_path = Some [\<lparr>src_tgt = (''Egg'', ''Boil'')\<rparr>],
                        node_datas = Some []\<rparr>\<rparr>"
  have h: "node_datas (node_hits ?res) = Some []" by simp
  from buildOverlay_edge_keys_mirrored [OF h, of "[]"] obtain ov where
    ov: "buildOverlay ?res [] = Inr ov"
    and a: "\<forall>p\<in>set (case use_reasoning_path (node_hits ?res) of None \<Rightarrow> [] | Some r \<Rightarrow> r).
           keyOf (normalize_str (fst (src_tgt p))) (normalize_str (snd (src_tgt p))) \<in> set (pathEdgeKeys ov)
         \<and> keyOf (normalize_str (snd (src_tgt p))) (normalize_str (fst (src_tgt p))) \<in> set (pathEdgeKeys ov)"
    by blast
  have k1: "keyOf (normalize_str ''Egg'') (normalize_str ''Boil'') = ''EGG||BOIL''" by code_simp
  have k2: "keyOf (normalize_str ''Boil'') (normalize_str ''Egg'') = ''BOIL||EGG''" by code_simp
  from a k1 k2 have "''EGG||BOIL'' \<in> set (pathEdgeKeys ov) \<and> ''BOIL||EGG'' \<in> set (pathEdgeKeys ov)"
    by simp
  with ov show ?thesis by blast
qed

text \<open>
  C9: \<open>hitNodeIds\<close> and \<open>pathNodeIds\<close> contain only ids of nodes of the given list, and
  retrieval names that hit no index entry leave them empty.
\<close>

theorem buildOverlay_ids_in_node_list:
  assumes "node_datas (node_hits res) = Some nds"
  shows "\<exists>ov. buildOverlay res ns = Inr ov
     \<and> set (hitNodeIds ov) \<subseteq> node_id ` set ns
     \<and> set (pathNodeIds ov) \<subseteq> node_id ` set ns
     \<and> ((\<forall>nd\<in>set nds. buildNameMap Map.empty ns (normalize_str (entity_name nd)) = None)
          \<longrightarrow> hitNodeIds ov = [])
     \<and> ((\<forall>p\<in>set (case use_reasoning_path (node_hits res) of None \<Rightarrow> [] | Some r \<Rightarrow> r).
            buildNameMap Map.empty ns (normalize_str (fst (src_tgt p))) = None
          \<and> buildNameMap Map.empty ns (normalize_str (snd (src_tgt p))) = None)
          \<longrightarrow> pathNodeIds ov = [])"
proof -
  let ?ps = "case use_reasoning_path (node_hits res) of None \<Rightarrow> [] | Some r \<Rightarrow> r"
  obtain ov where ov: "buildOverlay res ns = Inr ov"
    and hit: "hitNodeIds ov = hitLoop (buildNameMap Map.empty ns) [] nds"
    and path: "pathNodeIds ov = fst (pathLoop (buildNameMap Map.empty ns) ([], []) ?ps)"
    using buildOverlay_total [OF assms, of ns] by simp
  have a: "set (hitNodeIds ov) \<subseteq> node_id ` set ns"
    unfolding hit by (rule hit_ids_from_index)
  have b: "set (pathNodeIds ov) \<subseteq> node_id ` set ns"
    unfolding path by (rule path_ids_from_index)
  have c: "(\<forall>nd\<in>set nds. buildNameMap Map.empty ns (normalize_str (entity_name nd)) = None)
          \<longrightarrow> hitNodeIds ov = []"
    unfolding hit using hitLoop_no_match by blast
  have d: "(\<forall>p\<in>set ?ps.
            buildNameMap Map.empty ns (normalize_str (fst (src_tgt p))) = None
          \<and> buildNameMap Map.empty ns (normalize_str (snd (src_tgt p))) = None)
          \<longrightarrow> pathNodeIds ov = []"
    unfolding path using pathLoop_no_match by blast
  show ?thesis by (intro exI [of _ ov] conjI ov a b c d)
qed

text \<open>C9 on one node \<open>n1\<close> labelled \<open>Egg\<close>, the unmatched name \<open>Pepper\<close> and the pair
  \<open>(Egg, Salt)\<close>.\<close>

theorem buildOverlay_ids_in_node_list_witness:
  "\<exists>ov. buildOverlay
          \<lparr>node_hits = \<lparr>use_reasoning_path = Some [\<lparr>src_tgt = (''Egg'', ''Salt'')\<rparr>],
                        node_datas = Some [\<lparr>entity_name = ''Pepper''\<rparr>]\<rparr>\<rparr>
          [\<lparr>node_id = ''n1'', label = Some ''Egg'', description = None, level = 0\<rparr>] = Inr ov
     \<and> set (hitNodeIds ov) \<subseteq> {''n1''} \<and> set (pathNodeIds ov) \<subseteq> {''n1''} \<and> hitNodeIds ov = []"
proof -
  let ?res = "\<lparr>node_hits = \<lparr>use_reasoning_path = Some [\<lparr>src_tgt = (''Egg'', ''Salt'')\<rparr>],
                        node_datas = Some [\<lparr>entity_name = ''Pepper''\<rparr>]\<rparr>\<rparr>"
  let ?ns = "[\<lparr>node_id = ''n1'', label = Some ''Egg'', description = None, level = 0\<rparr>]"
  have h: "node_datas (node_hits ?res) = Some [\<lparr>entity_name = ''Pepper''\<rparr>]" by simp
  from buildOverlay_ids_in_node_list [OF h, of ?ns] obtain ov where
    ov: "buildOverlay ?res ?ns = Inr ov"
    and a: "set (hitNodeIds ov) \<subseteq> node_id ` set ?ns"
    and b: "set (pathNodeIds ov) \<subseteq> node_id ` set ?ns"
    and c: "(\<forall>nd\<in>set [\<lparr>entity_name = ''Pepper''\<rparr>]. buildNameMap Map.empty ?ns (normalize_str (entity_name nd)) = None)
          \<longrightarrow> hitNodeIds ov = []"
    by blast
  have miss: "buildNameMap Map.empty ?ns (normalize_str ''Pepper'') = None" by code_simp
  from c miss have "hitNodeIds ov = []" by simp
  with ov a b show ?thesis by simp
qed


section \<open>Claims about the identity index\<close>

text \<open>
  C7, as stated: the index has no entry under the empty canonical string. The guard
  \<^verbatim>\<open>if (!key) continue\<close> tests the attribute before it is normalized: a description
  that is a single blank passes it, normalizes to the empty string and is indexed there,
  where the empty retrieval name finds it.
\<close>

theorem index_has_empty_key:
  "buildNameMap Map.empty
     [\<lparr>node_id = ''n1'', label = Some ''Egg'', description = Some '' '', level = 0\<rparr>] [] = Some [''n1'']
   \<and> buildOverlay
        \<lparr>node_hits = \<lparr>use_reasoning_path = Some [], node_datas = Some [\<lparr>entity_name = ''''\<rparr>]\<rparr>\<rparr>
        [\<lparr>node_id = ''n1'', label = Some ''Egg'', description = Some '' '', level = 0\<rparr>]
      = Inr \<lparr>hitNodeIds = [''n1''], pathNodeIds = [], pathEdgeKeys = []\<rparr>"
  by code_simp

text \<open>
  C7, amended: an attribute that is empty or null is never inserted. Every entry of the
  index is a non-empty list of ids of nodes with a non-empty attribute whose normal form
  is the entry's key; so when every non-empty attribute has a non-empty normal form, the
  index has no entry under the empty canonical string.
\<close>

theorem index_entries_from_nonempty_attributes:
  "(\<forall>k ids. buildNameMap Map.empty ns k = Some ids \<longrightarrow>
      ids \<noteq> [] \<and>
      set ids = {node_id n | n s. n \<in> set ns \<and> Some s \<in> {Some (node_id n), label n, description n}
        \<and> s \<noteq> [] \<and> normalize_str s = k})
   \<and> ((\<forall>n\<in>set ns. \<forall>s. Some s \<in> {Some (node_id n), label n, description n} \<longrightarrow> s \<noteq> [] \<longrightarrow> normalize_str s \<noteq> [])
        \<longrightarrow> buildNameMap Map.empty ns [] = None)"
proof (intro conjI allI impI)
  fix k ids assume "buildNameMap Map.empty ns k = Some ids"
  then show "ids \<noteq> []" and "set ids = {node_id n | n s. n \<in> set ns \<and> Some s \<in> {Some (node_id n), label n, description n}
        \<and> s \<noteq> [] \<and> normalize_str s = k}"
    by (rule buildNameMap_Some)+
next
  assume "\<forall>n\<in>set ns. \<forall>s. Some s \<in> {Some (node_id n), label n, description n} \<longrightarrow> s \<noteq> [] \<longrightarrow> normalize_str s \<noteq> []"
  then show "buildNameMap Map.empty ns [] = None"
    unfolding buildNameMap_None_iff by blast
qed

text \<open>C7 (amended) on a node with an empty description and a node without label and
  description.\<close>

theorem index_entries_from_nonempty_attributes_witness:
  "buildNameMap Map.empty
     [\<lparr>node_id = ''n1'', label = Some ''Egg'', description = Some [], level = 0\<rparr>,
      \<lparr>node_id = ''n2'', label = None, description = None, level = 1\<rparr>] [] = None"
proof -
  let ?ns = "[\<lparr>node_id = ''n1'', label = Some ''Egg'', description = Some [], level = 0\<rparr>,
      \<lparr>node_id = ''n2'', label = None, description = None, level = 1\<rparr>]"
  have e1: "normalize_str ''n1'' \<noteq> []" by code_simp
  have e2: "normalize_str ''n2'' \<noteq> []" by code_simp
  have e3: "normalize_str ''Egg'' \<noteq> []" by code_simp
  have "\<forall>n\<in>set ?ns. \<forall>s. Some s \<in> {Some (node_id n), label n, description n} \<longrightarrow> s \<noteq> [] \<longrightarrow> normalize_str s \<noteq> []"
    using e1 e2 e3 by auto
  with index_entries_from_nonempty_attributes [of ?ns] show ?thesis by blast
qed


section \<open>Claims about edgeKey\<close>

text \<open>
  C10: \<open>edgeKey\<close> returns, and never throws, on an edge whose endpoints are strings or
  node objects: the key joins the normal forms of the endpoint texts, the text of a node
  object being its \<open>id\<close> and the empty string when the id is absent; for string endpoints
  the key is \<open>normalize(source)||normalize(target)\<close>. Hence an edge with string endpoints
  whose normal forms are those of a reasoning pair, in either order, has exactly a key
  that \<open>buildOverlay\<close> inserted, and \<open>isPathEdge\<close> finds it.
\<close>

theorem edgeKey_total_on_renderer_endpoints:
  "(endpointId (getProp (JObject props) ''source'') = Some a
      \<and> endpointId (getProp (JObject props) ''target'') = Some b
     \<longrightarrow> edgeKey (JObject props) = Inr (keyOf (normalize_str a) (normalize_str b)))
   \<and> (getProp (JObject props) ''source'' = JString s \<and> getProp (JObject props) ''target'' = JString t
     \<longrightarrow> edgeKey (JObject props) = Inr (keyOf (normalize_str s) (normalize_str t)))
   \<and> edgeKey (JObject [(''source'', JObject [(''id'', JString i)]), (''target'', JObject [])])
       = Inr (keyOf (normalize_str i) (normalize_str []))
   \<and> (getProp (JObject props) ''source'' = JString s \<and> getProp (JObject props) ''target'' = JString t
       \<and> node_datas (node_hits res) = Some nds
       \<and> use_reasoning_path (node_hits res) = Some ps \<and> p \<in> set ps
       \<and> ((normalize_str s = normalize_str (fst (src_tgt p)) \<and> normalize_str t = normalize_str (snd (src_tgt p)))
          \<or> (normalize_str s = normalize_str (snd (src_tgt p)) \<and> normalize_str t = normalize_str (fst (src_tgt p))))
     \<longrightarrow> (\<exists>ov k. buildOverlay res ns = Inr ov \<and> edgeKey (JObject props) = Inr k
            \<and> k \<in> set (pathEdgeKeys ov) \<and> isPathEdge (Some ov) (JObject props) = Inr True))"
proof (intro conjI impI)
  assume "endpointId (getProp (JObject props) ''source'') = Some a
      \<and> endpointId (getProp (JObject props) ''target'') = Some b"
  then show "edgeKey (JObject props) = Inr (keyOf (normalize_str a) (normalize_str b))"
    by (simp add: edgeKey_endpoints)
next
  assume "getProp (JObject props) ''source'' = JString s \<and> getProp (JObject props) ''target'' = JString t"
  then show "edgeKey (JObject props) = Inr (keyOf (normalize_str s) (normalize_str t))"
    by (simp add: edgeKey_strings)
next
  show "edgeKey (JObject [(''source'', JObject [(''id'', JString i)]), (''target'', JObject [])])
       = Inr (keyOf (normalize_str i) (normalize_str []))"
    by (rule edgeKey_endpoints) (simp_all add: getProp_def endpointId_def)
next
  assume h: "getProp (JObject props) ''source'' = JString s \<and> getProp (JObject props) ''target'' = JString t
       \<and> node_datas (node_hits res) = Some nds
       \<and> use_reasoning_path (node_hits res) = Some ps \<and> p \<in> set ps
       \<and> ((normalize_str s = normalize_str (fst (src_tgt p)) \<and> normalize_str t = normalize_str (snd (src_tgt p)))
          \<or> (normalize_str s = normalize_str (snd (src_tgt p)) \<and> normalize_str t = normalize_str (fst (src_tgt p))))"
  then have nd: "node_datas (node_hits res) = Some nds"
    and ps: "use_reasoning_path (node_hits res) = Some ps" and p: "p \<in> set ps" by simp_all
  obtain ov where ov: "buildOverlay res ns = Inr ov"
    and keys: "pathEdgeKeys ov = snd (pathLoop (buildNameMap Map.empty ns) ([], []) ps)"
    using buildOverlay_total [OF nd, of ns] ps by simp
  have k: "edgeKey (JObject props) = Inr (keyOf (normalize_str s) (normalize_str t))"
    using h by (simp add: edgeKey_strings)
  have mem: "keyOf (normalize_str s) (normalize_str t) \<in> set (pathEdgeKeys ov)"
    unfolding keys using path_keys_present [OF p, of "buildNameMap Map.empty ns"] h by auto
  have "isPathEdge (Some ov) (JObject props) = Inr True"
    using k mem by (simp add: isPathEdge_def)
  with ov k mem show "\<exists>ov k. buildOverlay res ns = Inr ov \<and> edgeKey (JObject props) = Inr k
            \<and> k \<in> set (pathEdgeKeys ov) \<and> isPathEdge (Some ov) (JObject props) = Inr True"
    by blast
qed

text \<open>C10 on an edge from the string \<open>boil\<close> to the node object \<open>n1\<close>, and on the edge
  \<open>boil\<close> to \<open>egg\<close> against the pair \<open>(Egg, Boil)\<close>.\<close>

theorem edgeKey_total_on_renderer_endpoints_witness:
  "edgeKey (JObject [(''source'', JString ''boil''), (''target'', JObject [(''id'', JString ''n1'')]), (''weight'', JNumber 1)])
     = Inr ''BOIL||N1''
   \<and> (\<exists>ov. buildOverlay
          \<lparr>node_hits = \<lparr>use_reasoning_path = Some [\<lparr>src_tgt = (''Egg'', ''Boil'')\<rparr>],
                        node_datas = Some []\<rparr>\<rparr> [] = Inr ov
        \<and> isPathEdge (Some ov) (JObject [(''source'', JString ''boil''), (''target'', JString ''egg'')]) = Inr True)"
proof -
  let ?e1 = "[(''source'', JString ''boil''), (''target'', JObject [(''id'', JString ''n1'')]), (''weight'', JNumber 1)]"
  let ?e2 = "[(''source'', JString ''boil''), (''target'', JString ''egg'')]"
  let ?res = "\<lparr>node_hits = \<lparr>use_reasoning_path = Some [\<lparr>src_tgt = (''Egg'', ''Boil'')\<rparr>],
                        node_datas = Some []\<rparr>\<rparr>"
  let ?p = "\<lparr>src_tgt = (''Egg'', ''Boil'')\<rparr>"
  have s1: "endpointId (getProp (JObject ?e1) ''source'') = Some ''boil''"
    by (simp add: getProp_def endpointId_def)
  have t1: "endpointId (getProp (JObject ?e1) ''target'') = Some ''n1''"
    by (simp add: getProp_def endpointId_def)
  have k1: "keyOf (normalize_str ''boil'') (normalize_str ''n1'') = ''BOIL||N1''" by code_simp
  from edgeKey_total_on_renderer_endpoints [of ?e1 "''boil''" "''n1''"] s1 t1 k1
  have a: "edgeKey (JObject ?e1) = Inr ''BOIL||N1''" by simp
  have s2: "getProp (JObject ?e2) ''source'' = JString ''boil''" by (simp add: getProp_def)
  have t2: "getProp (JObject ?e2) ''target'' = JString ''egg''" by (simp add: getProp_def)
  have n1: "normalize_str ''boil'' = normalize_str ''Boil''" by code_simp
  have n2: "normalize_str ''egg'' = normalize_str ''Egg''" by code_simp
  from edgeKey_total_on_renderer_endpoints [of ?e2 "[]" "[]" "''boil''" "''egg''" "[]" ?res "[]" "[?p]" ?p "[]"]
    s2 t2 n1 n2
  have b: "\<exists>ov. buildOverlay ?res [] = Inr ov \<and> isPathEdge (Some ov) (JObject ?e2) = Inr True"
    by auto
  from a b show ?thesis by blast
qed


section \<open>Claims about the merged overlay\<close>

text \<open>
  C4: for every chat history (whose retrieval payloads carry \<open>node_datas\<close>, which
  \<open>normaliseRetrievePayload\<close> supplies) and every node list, the effect stores a merged overlay,
  and each of its three sets is exactly the union of that set over \<open>buildOverlay\<close> of the
  messages with a retrieval payload: nothing is missing and nothing is there that no
  message contributes. For the empty history the three sets are empty.
\<close>

theorem mergedOverlay_is_union:
  assumes "\<forall>m\<in>set msgs. \<forall>r. retrieval m = Some r \<longrightarrow> node_datas (node_hits r) \<noteq> None"
  shows "\<exists>mo. mergedOverlayEffect msgs (Some \<lparr>nodes = Some nds\<rparr>) = Some (Inr mo)
     \<and> set (hitNodeIds mo) =
         \<Union> {set (hitNodeIds ov) | ov m r. m \<in> set msgs \<and> retrieval m = Some r \<and> buildOverlay r nds = Inr ov}
     \<and> set (pathNodeIds mo) =
         \<Union> {set (pathNodeIds ov) | ov m r. m \<in> set msgs \<and> retrieval m = Some r \<and> buildOverlay r nds = Inr ov}
     \<and> set (pathEdgeKeys mo) =
         \<Union> {set (pathEdgeKeys ov) | ov m r. m \<in> set msgs \<and> retrieval m = Some r \<and> buildOverlay r nds = Inr ov}
     \<and> mergedOverlayEffect [] (Some \<lparr>nodes = Some nds\<rparr>)
         = Some (Inr \<lparr>hitNodeIds = [], pathNodeIds = [], pathEdgeKeys = []\<rparr>)"
proof -
  from mergeLoop_total [OF assms, of emptyOverlay nds]
  obtain mo where mo: "mergeLoop emptyOverlay (Some nds) msgs = Inr mo" by blast
  note mem = mergeLoop_members [OF mo]
  have eff: "mergedOverlayEffect msgs (Some \<lparr>nodes = Some nds\<rparr>) = Some (Inr mo)"
    by (simp add: mergedOverlayEffect_def mo)
  have a: "set (hitNodeIds mo) =
         \<Union> {set (hitNodeIds ov) | ov m r. m \<in> set msgs \<and> retrieval m = Some r \<and> buildOverlay r nds = Inr ov}"
  proof (rule set_eqI)
    fix x
    from mem [of x] show "x \<in> set (hitNodeIds mo) \<longleftrightarrow>
      x \<in> \<Union> {set (hitNodeIds ov) | ov m r. m \<in> set msgs \<and> retrieval m = Some r \<and> buildOverlay r nds = Inr ov}"
      by (simp add: emptyOverlay_def) blast
  qed
  have b: "set (pathNodeIds mo) =
         \<Union> {set (pathNodeIds ov) | ov m r. m \<in> set msgs \<and> retrieval m = Some r \<and> buildOverlay r nds = Inr ov}"
  proof (rule set_eqI)
    fix x
    from mem [of x] show "x \<in> set (pathNodeIds mo) \<longleftrightarrow>
      x \<in> \<Union> {set (pathNodeIds ov) | ov m r. m \<in> set msgs \<and> retrieval m = Some r \<and> buildOverlay r nds = Inr ov}"
      by (simp add: emptyOverlay_def) blast
  qed
  have c: "set (pathEdgeKeys mo) =
         \<Union> {set (pathEdgeKeys ov) | ov m r. m \<in> set msgs \<and> retrieval m = Some r \<and> buildOverlay r nds = Inr ov}"
  proof (rule set_eqI)
    fix x
    from mem [of x] show "x \<in> set (pathEdgeKeys mo) \<longleftrightarrow>
      x \<in> \<Union> {set (pathEdgeKeys ov) | ov m r. m \<in> set msgs \<and> retrieval m = Some r \<and> buildOverlay r nds = Inr ov}"
      by (simp add: emptyOverlay_def) blast
  qed
  have d: "mergedOverlayEffect [] (Some \<lparr>nodes = Some nds\<rparr>)
         = Some (Inr \<lparr>hitNodeIds = [], pathNodeIds = [], pathEdgeKeys = []\<rparr>)"
    by (simp add: mergedOverlayEffect_def emptyOverlay_def)
  show ?thesis by (intro exI [of _ mo] conjI eff a b c d)
qed

text \<open>C4 on a history of a user message without payload and an assistant message with
  the egg payload.\<close>

theorem mergedOverlay_is_union_witness:
  "\<exists>mo. mergedOverlayEffect
           [\<lparr>msg_id = ''q1_user'', retrieval = None\<rparr>,
            \<lparr>msg_id = ''q1_assistant'',
              retrieval = Some \<lparr>node_hits = \<lparr>use_reasoning_path = Some [\<lparr>src_tgt = (''Egg'', ''Boil'')\<rparr>],
                                             node_datas = Some [\<lparr>entity_name = ''EGG''\<rparr>]\<rparr>\<rparr>\<rparr>]
           (Some \<lparr>nodes = Some
             [\<lparr>node_id = ''n1'', label = Some ''Egg'', description = None, level = 0\<rparr>,
              \<lparr>node_id = ''n2'', label = Some ''Boil'', description = None, level = 1\<rparr>]\<rparr>) = Some (Inr mo)
        \<and> ''n1'' \<in> set (hitNodeIds mo)"
proof -
  let ?r = "\<lparr>node_hits = \<lparr>use_reasoning_path = Some [\<lparr>src_tgt = (''Egg'', ''Boil'')\<rparr>],
                                             node_datas = Some [\<lparr>entity_name = ''EGG''\<rparr>]\<rparr>\<rparr>"
  let ?m1 = "\<lparr>msg_id = ''q1_user'', retrieval = None\<rparr>"
  let ?m2 = "\<lparr>msg_id = ''q1_assistant'', retrieval = Some ?r\<rparr>"
  let ?nds = "[\<lparr>node_id = ''n1'', label = Some ''Egg'', description = None, level = 0\<rparr>,
              \<lparr>node_id = ''n2'', label = Some ''Boil'', description = None, level = 1\<rparr>]"
  let ?ov = "\<lparr>hitNodeIds = [''n1''], pathNodeIds = [''n1'', ''n2''],
               pathEdgeKeys = [''EGG||BOIL'', ''BOIL||EGG'']\<rparr>"
  have h: "\<forall>m\<in>set [?m1, ?m2]. \<forall>r. retrieval m = Some r \<longrightarrow> node_datas (node_hits r) \<noteq> None"
    by simp
  have m2: "?m2 \<in> set [?m1, ?m2]" by simp
  have r2: "retrieval ?m2 = Some ?r" by simp
  have mem: "set (hitNodeIds ?ov) \<in> {set (hitNodeIds ov) | ov m r. m \<in> set [?m1, ?m2] \<and> retrieval m = Some r \<and> buildOverlay r ?nds = Inr ov}"
    unfolding mem_Collect_eq
    by (intro exI [of _ ?ov] exI [of _ ?m2] exI [of _ ?r] conjI refl m2 r2 egg_scenario)
  have n1: "''n1'' \<in> set (hitNodeIds ?ov)" by simp
  have un: "''n1'' \<in> \<Union> {set (hitNodeIds ov) | ov m r. m \<in> set [?m1, ?m2] \<and> retrieval m = Some r \<and> buildOverlay r ?nds = Inr ov}"
    using mem n1 by (rule UnionI)
  from mergedOverlay_is_union [OF h, of ?nds] show ?thesis
  proof (elim exE conjE)
    fix mo
    assume eff: "mergedOverlayEffect [?m1, ?m2] (Some \<lparr>nodes = Some ?nds\<rparr>) = Some (Inr mo)"
      and hits: "set (hitNodeIds mo) =
         \<Union> {set (hitNodeIds ov) | ov m r. m \<in> set [?m1, ?m2] \<and> retrieval m = Some r \<and> buildOverlay r ?nds = Inr ov}"
    from un have "''n1'' \<in> set (hitNodeIds mo)" by (simp only: hits)
    with eff show ?thesis by (intro exI [of _ mo] conjI)
  qed
qed


section \<open>Claims about the focus tracker\<close>

text \<open>
  C8, as stated: after a reset-view action the next overlay change with a non-empty
  focus set is guaranteed to schedule a fit. Two runs where it does not: the focus set
  is the single node id \<open>reset\<close>, whose signature is the sentinel itself; and the overlay
  changes after the reset effect ran but before its frame callback stored the sentinel,
  with the signature applied before the reset (only the reset callback is waiting).
\<close>

theorem reset_sentinel_can_collide:
  "frameQueue (overlayZoomEffect True
      (Some \<lparr>hitNodeIds = [''reset''], pathNodeIds = [], pathEdgeKeys = []\<rparr>)
      (animationFrame (resetZoomEffect True (Some 1) initialCanvas))) = []
   \<and> frameQueue (overlayZoomEffect True
      (Some \<lparr>hitNodeIds = [''n1''], pathNodeIds = [], pathEdgeKeys = []\<rparr>)
      (resetZoomEffect True (Some 1)
        (animationFrame (overlayZoomEffect True
          (Some \<lparr>hitNodeIds = [''n1''], pathNodeIds = [], pathEdgeKeys = []\<rparr>) initialCanvas)))) = [ResetFit]"
  by (simp add: overlayZoomEffect_def resetZoomEffect_def animationFrame_def initialCanvas_def
      focusSetOf_def signatureOf_def setAdd_def Let_def)

text \<open>
  C8, amended: once the frame callback of a reset-view action has run, the stored
  signature is the sentinel \<open>reset\<close>; the next overlay change with a non-empty focus set
  whose signature is not the word \<open>reset\<close> schedules exactly one camera fit on that focus
  set and stores its signature, whatever was stored before the reset. An overlay
  presented twice in succession changes nothing the second time, each presentation
  schedules at most one fit, and with a frame in between (and no reset waiting) the
  second presentation schedules none.
\<close>

theorem fit_after_reset:
  assumes "focusSetOf overlay \<noteq> []"
    and "signatureOf (focusSetOf overlay) \<noteq> ''reset''"
  shows "zoomSigRef (animationFrame (resetZoomEffect True (Some t) st)) = ''reset''
     \<and> frameQueue (overlayZoomEffect True overlay (animationFrame (resetZoomEffect True (Some t) st)))
         = [FocusFit (focusSetOf overlay)]
     \<and> zoomSigRef (overlayZoomEffect True overlay (animationFrame (resetZoomEffect True (Some t) st)))
         = signatureOf (focusSetOf overlay)
     \<and> overlayZoomEffect fg overlay (overlayZoomEffect fg overlay st') = overlayZoomEffect fg overlay st'
     \<and> (frameQueue (overlayZoomEffect fg overlay st') = frameQueue st'
         \<or> frameQueue (overlayZoomEffect fg overlay st') = frameQueue st' @ [FocusFit (focusSetOf overlay)])
     \<and> (ResetFit \<notin> set (frameQueue st') \<longrightarrow>
          frameQueue (overlayZoomEffect fg overlay (animationFrame (overlayZoomEffect fg overlay st'))) = [])"
proof -
  let ?st = "animationFrame (resetZoomEffect True (Some t) st)"
  have sig: "zoomSigRef ?st = ''reset''" by (rule zoomSig_after_reset_frame)
  with assms(2) have ne: "signatureOf (focusSetOf overlay) \<noteq> zoomSigRef ?st" by simp
  note fit = overlayZoomEffect_fit [OF assms(1) ne]
  have q: "frameQueue (overlayZoomEffect True overlay ?st) = [FocusFit (focusSetOf overlay)]"
    by (simp add: fit)
  have z: "zoomSigRef (overlayZoomEffect True overlay ?st) = signatureOf (focusSetOf overlay)"
    by (simp add: fit)
  have again: "ResetFit \<notin> set (frameQueue st') \<longrightarrow>
          frameQueue (overlayZoomEffect fg overlay (animationFrame (overlayZoomEffect fg overlay st'))) = []"
  proof
    assume nr: "ResetFit \<notin> set (frameQueue st')"
    let ?s1 = "overlayZoomEffect fg overlay st'"
    have keep: "zoomSigRef (animationFrame ?s1) = zoomSigRef ?s1"
      using nr by (intro zoomSig_animationFrame_no_reset frameQueue_overlayZoomEffect_subset)
    have "overlayZoomEffect fg overlay (animationFrame ?s1) = animationFrame ?s1"
    proof (cases "fg \<and> focusSetOf overlay \<noteq> []")
      case True
      then have "zoomSigRef ?s1 = signatureOf (focusSetOf overlay)"
        by (simp add: zoomSig_after_overlay)
      with keep have "signatureOf (focusSetOf overlay) = zoomSigRef (animationFrame ?s1)" by simp
      then show ?thesis by (rule overlayZoomEffect_same)
    next
      case False
      then show ?thesis by (auto simp: overlayZoomEffect_def)
    qed
    then show "frameQueue (overlayZoomEffect fg overlay (animationFrame ?s1)) = []" by simp
  qed
  from sig q z overlayZoomEffect_twice [of fg overlay st'] overlayZoomEffect_queue [of fg overlay st'] again
  show ?thesis by blast
qed

text \<open>C8 (amended) on the overlay hitting \<open>n1\<close>, applied and fitted before the reset and
  presented again after it.\<close>

theorem fit_after_reset_witness:
  "frameQueue (overlayZoomEffect True
      (Some \<lparr>hitNodeIds = [''n1''], pathNodeIds = [], pathEdgeKeys = []\<rparr>)
      (animationFrame (resetZoomEffect True (Some 1)
        (animationFrame (overlayZoomEffect True
          (Some \<lparr>hitNodeIds = [''n1''], pathNodeIds = [], pathEdgeKeys = []\<rparr>) initialCanvas)))))
     = [FocusFit [''n1'']]
   \<and> overlayZoomEffect True (Some \<lparr>hitNodeIds = [''n1''], pathNodeIds = [], pathEdgeKeys = []\<rparr>)
       (overlayZoomEffect True (Some \<lparr>hitNodeIds = [''n1''], pathNodeIds = [], pathEdgeKeys = []\<rparr>) initialCanvas)
     = overlayZoomEffect True (Some \<lparr>hitNodeIds = [''n1''], pathNodeIds = [], pathEdgeKeys = []\<rparr>) initialCanvas"
proof -
  let ?A = "Some \<lparr>hitNodeIds = [''n1''], pathNodeIds = [], pathEdgeKeys = []\<rparr>"
  let ?st = "animationFrame (overlayZoomEffect True ?A initialCanvas)"
  have f: "focusSetOf ?A = [''n1'']" by (simp add: focusSetOf_def setAdd_def)
  have s: "signatureOf [''n1''] = ''n1''" by (simp add: signatureOf_def)
  have h1: "focusSetOf ?A \<noteq> []" by (simp add: f)
  have h2: "signatureOf (focusSetOf ?A) \<noteq> ''reset''" by (simp add: f s)
  from fit_after_reset [OF h1 h2, of 1 ?st True initialCanvas] show ?thesis
    by (simp add: f)
qed


section \<open>Claims about the level bands\<close>




end
